theory Spec2Isabelle
  imports Complex_Main "HOL-Library.Char_ord" "HOL-Library.List_Lexorder" "HOL-Library.Multiset"
begin

section \<open>JavaScript primitives used by the planner\<close>

text \<open>
  \<^verbatim>\<open>String.prototype.split\<close> with a one-character separator: the pieces between
  the separators, so that the empty string yields one empty piece.
\<close>

fun split_chr :: "char \<Rightarrow> string \<Rightarrow> string list" where
  "split_chr c [] = [[]]"
| "split_chr c (x # xs) =
     (if x = c then [] # split_chr c xs
      else (case split_chr c xs of [] \<Rightarrow> [[x]] | p # ps \<Rightarrow> (x # p) # ps))"

text \<open>Reading an array element that may be absent: \<^verbatim>\<open>undefined\<close> is \<open>None\<close>.\<close>

fun nth_opt :: "'a list \<Rightarrow> nat \<Rightarrow> 'a option" where
  "nth_opt [] i = None"
| "nth_opt (x # xs) 0 = Some x"
| "nth_opt (x # xs) (Suc i) = nth_opt xs i"

definition is_space :: "char \<Rightarrow> bool" where
  "is_space c = (c \<in> set [CHR '' '', CHR 0x09, CHR 0x0A, CHR 0x0B, CHR 0x0C, CHR 0x0D])"

definition is_digit :: "char \<Rightarrow> bool" where
  "is_digit c = (CHR ''0'' \<le> c \<and> c \<le> CHR ''9'')"

definition digits_val :: "string \<Rightarrow> nat" where
  "digits_val ds = foldl (\<lambda>v c. 10 * v + (of_char c - 48)) 0 ds"

text \<open>
  \<^verbatim>\<open>parseInt(s, 10)\<close>: leading white space is skipped, a sign is read, then the
  longest run of decimal digits; without a digit the result is \<^verbatim>\<open>NaN\<close>
  (\<open>None\<close>). \<^verbatim>\<open>parseInt(undefined, 10)\<close> is \<^verbatim>\<open>NaN\<close> as well.
  White space is the ASCII white space (characters are bytes here).
\<close>

definition parseInt :: "string option \<Rightarrow> int option" where
  "parseInt so =
     (case so of
        None \<Rightarrow> None
      | Some s \<Rightarrow>
          (let t = dropWhile is_space s;
               neg = (case t of [] \<Rightarrow> False | c # _ \<Rightarrow> c = CHR ''-'');
               u = (case t of [] \<Rightarrow> []
                    | c # r \<Rightarrow> if c = CHR ''-'' \<or> c = CHR ''+'' then r else t);
               ds = takeWhile is_digit u
           in if ds = [] then None
              else Some (if neg then - int (digits_val ds) else int (digits_val ds))))"

text \<open>
  \<^verbatim>\<open>Number(s)\<close> on the pieces of a date string. The model covers what a date
  field produces: surrounding ASCII white space is trimmed, the empty string is \<open>0\<close>,
  an unsigned run of decimal digits is its value. Any other literal form (sign,
  fraction, exponent, radix prefix, \<^verbatim>\<open>Infinity\<close>) is read as \<^verbatim>\<open>NaN\<close> here.
  \<^verbatim>\<open>Number(undefined)\<close> is \<^verbatim>\<open>NaN\<close>.
\<close>

definition Number :: "string option \<Rightarrow> int option" where
  "Number so =
     (case so of
        None \<Rightarrow> None
      | Some s \<Rightarrow>
          (let t = rev (dropWhile is_space (rev (dropWhile is_space s)))
           in if t = [] then Some 0
              else if list_all is_digit t then Some (int (digits_val t))
              else None))"

text \<open>
  Day number (days since 1970-01-01) of the first day of month index \<open>mn\<close>
  (\<open>0\<close> is January) of year \<open>y\<close> in the proleptic Gregorian calendar.
\<close>

definition days_from_civil :: "int \<Rightarrow> int \<Rightarrow> int" where
  "days_from_civil y mn =
     (let m = mn + 1;
          y' = (if m \<le> 2 then y - 1 else y);
          era = y' div 400;
          yoe = y' - era * 400;
          doy = (153 * (m + (if m > 2 then - 3 else 9)) + 2) div 5;
          doe = yoe * 365 + yoe div 4 - yoe div 100 + doy
      in era * 146097 + doe - 719468)"

text \<open>
  \<^verbatim>\<open>new Date(Date.UTC(year, monthIndex, day)).getUTCDay()\<close>: \<open>0\<close> is Sunday.
  A \<^verbatim>\<open>NaN\<close> argument gives \<^verbatim>\<open>NaN\<close>; years \<open>0..99\<close> mean \<open>1900..1999\<close>;
  month and day overflow into the neighbouring months; a time value beyond
  \<open>8.64e15\<close> ms is clipped to \<^verbatim>\<open>NaN\<close>.
\<close>

definition utc_day :: "int option \<Rightarrow> int option \<Rightarrow> int option \<Rightarrow> int option" where
  "utc_day yo mo dayo =
     (case yo of None \<Rightarrow> None | Some y \<Rightarrow>
      (case mo of None \<Rightarrow> None | Some mi \<Rightarrow>
       (case dayo of None \<Rightarrow> None | Some d \<Rightarrow>
         (let yr = (if 0 \<le> y \<and> y \<le> 99 then 1900 + y else y);
              ym = yr + mi div 12;
              mn = mi mod 12;
              dn = days_from_civil ym mn + d - 1
          in if \<bar>dn\<bar> * 86400000 > 8640000000000000 then None
             else Some ((dn + 4) mod 7)))))"

definition toLowerCase :: "string \<Rightarrow> string" where
  "toLowerCase s =
     map (\<lambda>c. if CHR ''A'' \<le> c \<and> c \<le> CHR ''Z'' then char_of (of_char c + (32::nat)) else c) s"

definition toUpperCase :: "string \<Rightarrow> string" where
  "toUpperCase s =
     map (\<lambda>c. if CHR ''a'' \<le> c \<and> c \<le> CHR ''z'' then char_of (of_char c - (32::nat)) else c) s"


text \<open>
  \<^verbatim>\<open>Math.random()\<close> is a supply of draws \<open>rnd 0, rnd 1, ...\<close> from \<open>[0, 1)\<close>; the
  number of draws taken so far is threaded through every function that draws.

  \<^verbatim>\<open>Array.prototype.sort(comparefn)\<close> is modelled as the stable insertion sort an
  engine runs on short arrays: the elements are inserted from left to right, each
  before the first element it compares below (\<open>comparefn(x, y) < 0\<close>). The
  comparator may draw random numbers, so it takes and returns the draw count.
\<close>

fun insert_sorted ::
  "('a \<Rightarrow> 'a \<Rightarrow> nat \<Rightarrow> real \<times> nat) \<Rightarrow> 'a \<Rightarrow> 'a list \<Rightarrow> nat \<Rightarrow> 'a list \<times> nat" where
  "insert_sorted cmp x [] n = ([x], n)"
| "insert_sorted cmp x (y # ys) n =
     (case cmp x y n of (c, n') \<Rightarrow>
        if c < 0 then (x # y # ys, n')
        else (case insert_sorted cmp x ys n' of (r, n'') \<Rightarrow> (y # r, n'')))"

fun sort_loop ::
  "('a \<Rightarrow> 'a \<Rightarrow> nat \<Rightarrow> real \<times> nat) \<Rightarrow> 'a list \<Rightarrow> 'a list \<Rightarrow> nat \<Rightarrow> 'a list \<times> nat" where
  "sort_loop cmp [] acc n = (acc, n)"
| "sort_loop cmp (x # xs) acc n =
     (case insert_sorted cmp x acc n of (acc', n') \<Rightarrow> sort_loop cmp xs acc' n')"

definition js_sort ::
  "('a \<Rightarrow> 'a \<Rightarrow> nat \<Rightarrow> real \<times> nat) \<Rightarrow> 'a list \<Rightarrow> nat \<Rightarrow> 'a list \<times> nat" where
  "js_sort cmp xs n = sort_loop cmp xs [] n"

section \<open>Data model shared by the variants\<close>

text \<open>
  A shift object \<^verbatim>\<open>{ id, date, type, assigned }\<close>. The outcome of a handler is the
  condition it stopped on, if any, together with the state it leaves behind:
  \<open>TypeError\<close> is the exception of reading a property of \<^verbatim>\<open>undefined\<close>, the other
  values are the handlers' early returns.
\<close>

record shift =
  shift_id :: string
  shift_date :: string
  shift_type :: string
  assigned :: "string list"

datatype error =
    TypeError
  | MissingInput
  | DuplicateShift
  | NotLoggedIn
  | AlreadyFinished
  | UnknownShift
  | QuotaExceeded

text \<open>Lexicographic order on a fairness key, a pair of counts.\<close>

definition lex_le :: "nat \<times> nat \<Rightarrow> nat \<times> nat \<Rightarrow> bool" where
  "lex_le a b = (fst a < fst b \<or> (fst a = fst b \<and> snd a \<le> snd b))"

section \<open>script.js: the planner with stored assignments\<close>

text \<open>
  The script keeps \<^verbatim>\<open>shifts\<close> (each with its \<^verbatim>\<open>assigned\<close> array), \<^verbatim>\<open>userPicks\<close>,
  \<^verbatim>\<open>finishedUsers\<close> and \<^verbatim>\<open>currentUser\<close> as globals. \<^verbatim>\<open>finishedUsers\<close> is only ever
  tested for truthiness, so an absent key reads as \<open>False\<close>.
\<close>

record globals =
  g_shifts :: "shift list"
  userPicks :: "string \<rightharpoonup> string list"
  finishedUsers :: "string \<Rightarrow> bool"
  currentUser :: "string option"

definition users :: "string list" where
  "users = [''Resident 1'', ''Resident 2'', ''Resident 3'', ''Resident 4'']"

definition maxShiftsPerUser :: nat where
  "maxShiftsPerUser = 4"

definition initial_globals :: globals where
  "initial_globals =
     \<lparr>g_shifts = [],
      userPicks = fold (\<lambda>u m. m(u \<mapsto> [])) users Map.empty,
      finishedUsers = (\<lambda>_. False),
      currentUser = None\<rparr>"

text \<open>
  \<^verbatim>\<open>computeMonFriCount(user)\<close>. A date with a dash is read as year-month-day, one
  with a slash as month/day/year, both through \<^verbatim>\<open>parseInt\<close> and \<^verbatim>\<open>Date.UTC\<close>. Any
  other string goes to \<^verbatim>\<open>new Date(d).getDay()\<close>, whose parse and time zone belong
  to the host: that is the parameter \<open>hostDay\<close>. A user without a pick array
  raises \<open>TypeError\<close>.
\<close>

definition counts_monfri :: "(string \<Rightarrow> int option) \<Rightarrow> string \<Rightarrow> bool" where
  "counts_monfri hostDay d =
     (if CHR ''-'' \<in> set d then
        (let parts = split_chr CHR ''-'' d;
             year = parseInt (nth_opt parts 0);
             monthIndex = map_option (\<lambda>m. m - 1) (parseInt (nth_opt parts 1));
             day = parseInt (nth_opt parts 2);
             dow = utc_day year monthIndex day
         in dow = Some 1 \<or> dow = Some 5)
      else if CHR ''/'' \<in> set d then
        (let parts = split_chr CHR ''/'' d;
             monthIndex = map_option (\<lambda>m. m - 1) (parseInt (nth_opt parts 0));
             day = parseInt (nth_opt parts 1);
             year = parseInt (nth_opt parts 2);
             dow = utc_day year monthIndex day
         in dow = Some 1 \<or> dow = Some 5)
      else (let dow = hostDay d in dow = Some 1 \<or> dow = Some 5))"

definition computeMonFriCount :: "(string \<Rightarrow> int option) \<Rightarrow> globals \<Rightarrow> string \<Rightarrow> error + nat" where
  "computeMonFriCount hostDay g user =
     (case userPicks g user of
        None \<Rightarrow> Inl TypeError
      | Some ps \<Rightarrow>
          Inr (foldl (\<lambda>count shiftId.
                 (case find (\<lambda>s. shift_id s = shiftId) (g_shifts g) of
                    None \<Rightarrow> count
                  | Some sh \<Rightarrow> if counts_monfri hostDay (shift_date sh) then count + 1 else count))
               0 ps))"

text \<open>\<^verbatim>\<open>addNewShift()\<close>, with the two form fields as arguments.\<close>

definition addNewShift :: "string \<Rightarrow> string \<Rightarrow> globals \<Rightarrow> error option \<times> globals" where
  "addNewShift date type g =
     (if date = [] then (Some MissingInput, g)
      else (let ident = date @ ''-'' @ toLowerCase type
            in if \<exists>s \<in> set (g_shifts g). shift_id s = ident then (Some DuplicateShift, g)
               else (None, g\<lparr>g_shifts := g_shifts g @
                       [\<lparr>shift_id = ident, shift_date = date, shift_type = type, assigned = []\<rparr>]\<rparr>)))"

text \<open>
  \<^verbatim>\<open>shifts.find(s => s.id === shiftId)\<close> returns the first shift object with that
  id; a write to that object changes this one element of the array.
\<close>

fun update_first :: "string \<Rightarrow> (shift \<Rightarrow> shift) \<Rightarrow> shift list \<Rightarrow> shift list" where
  "update_first i f [] = []"
| "update_first i f (s # ss) = (if shift_id s = i then f s # ss else s # update_first i f ss)"

text \<open>
  \<^verbatim>\<open>handleSelect(shiftId)\<close>: a toggle. A shift the current user is assigned to is
  released (\<^verbatim>\<open>indexOf\<close> and \<^verbatim>\<open>splice\<close> remove the first occurrence from the pick
  array); any other shift is taken unless the pick array is full.
\<close>

definition handleSelect :: "string \<Rightarrow> globals \<Rightarrow> error option \<times> globals" where
  "handleSelect shiftId g =
     (case currentUser g of
        None \<Rightarrow> (Some NotLoggedIn, g)
      | Some cu \<Rightarrow>
          if cu = [] then (Some NotLoggedIn, g)
          else if finishedUsers g cu then (Some AlreadyFinished, g)
          else (case find (\<lambda>s. shift_id s = shiftId) (g_shifts g) of
                  None \<Rightarrow> (Some UnknownShift, g)
                | Some sh \<Rightarrow>
                    if cu \<in> set (assigned sh) then
                      (let g1 = g\<lparr>g_shifts := update_first shiftId
                                   (\<lambda>s. s\<lparr>assigned := filter (\<lambda>u. u \<noteq> cu) (assigned s)\<rparr>) (g_shifts g)\<rparr>
                       in case userPicks g1 cu of
                            None \<Rightarrow> (Some TypeError, g1)
                          | Some ps \<Rightarrow> (None, g1\<lparr>userPicks := (userPicks g1)(cu \<mapsto> remove1 shiftId ps)\<rparr>))
                    else
                      (case userPicks g cu of
                         None \<Rightarrow> (Some TypeError, g)
                       | Some ps \<Rightarrow>
                           if length ps \<ge> maxShiftsPerUser then (Some QuotaExceeded, g)
                           else (None, g\<lparr>g_shifts := update_first shiftId
                                           (\<lambda>s. s\<lparr>assigned := assigned s @ [cu]\<rparr>) (g_shifts g),
                                         userPicks := (userPicks g)(cu \<mapsto> ps @ [shiftId])\<rparr>))))"

definition finishSelection :: "globals \<Rightarrow> error option \<times> globals" where
  "finishSelection g =
     (case currentUser g of
        None \<Rightarrow> (Some NotLoggedIn, g)
      | Some cu \<Rightarrow>
          if cu = [] then (Some NotLoggedIn, g)
          else (None, g\<lparr>finishedUsers := (finishedUsers g)(cu := True)\<rparr>))"

text \<open>The start button logs the selected name in; the back button logs out.\<close>

definition startBtn_click :: "string \<Rightarrow> globals \<Rightarrow> error option \<times> globals" where
  "startBtn_click selected g =
     (if selected = [] then (Some MissingInput, g)
      else (None, g\<lparr>currentUser := Some selected\<rparr>))"

definition backBtn_click :: "globals \<Rightarrow> error option \<times> globals" where
  "backBtn_click g = (None, g\<lparr>currentUser := None\<rparr>)"

text \<open>
  \<^verbatim>\<open>resolveConflicts()\<close>, first loop, inner \<^verbatim>\<open>forEach\<close>: the running choice among
  the residents assigned to one shift. \<^verbatim>\<open>!chosen\<close> holds for \<^verbatim>\<open>null\<close> and for the
  empty name. Monday/Friday counts are compared first, then the pick counts, then
  a random draw decides.
\<close>

fun choose_resident ::
  "(string \<Rightarrow> int option) \<Rightarrow> (nat \<Rightarrow> real) \<Rightarrow> globals \<Rightarrow> string list \<Rightarrow> string option \<Rightarrow> nat
     \<Rightarrow> error + (string option \<times> nat)" where
  "choose_resident hostDay rnd g [] chosen n = Inr (chosen, n)"
| "choose_resident hostDay rnd g (res # rest) chosen n =
     (case chosen of
        None \<Rightarrow> choose_resident hostDay rnd g rest (Some res) n
      | Some c \<Rightarrow>
          if c = [] then choose_resident hostDay rnd g rest (Some res) n
          else
            (case computeMonFriCount hostDay g res of
               Inl e \<Rightarrow> Inl e
             | Inr countA \<Rightarrow>
                 (case computeMonFriCount hostDay g c of
                    Inl e \<Rightarrow> Inl e
                  | Inr countB \<Rightarrow>
                      if countA < countB then choose_resident hostDay rnd g rest (Some res) n
                      else if countA = countB then
                        (case userPicks g res of
                           None \<Rightarrow> Inl TypeError
                         | Some pr \<Rightarrow>
                             (case userPicks g c of
                                None \<Rightarrow> Inl TypeError
                              | Some pc \<Rightarrow>
                                  if length pr < length pc then choose_resident hostDay rnd g rest (Some res) n
                                  else if length pr = length pc then
                                    (if rnd n < 1 / 2 then choose_resident hostDay rnd g rest (Some res) (Suc n)
                                     else choose_resident hostDay rnd g rest chosen (Suc n))
                                  else choose_resident hostDay rnd g rest chosen n))
                      else choose_resident hostDay rnd g rest chosen n)))"

text \<open>
  First loop over the shifts. Only \<^verbatim>\<open>assigned\<close> is written, which the counts never
  read, so every comparison sees the pick arrays and dates of the globals \<open>g\<close> the
  pass started from. An exception leaves the shifts resolved so far in place.
\<close>

fun resolve_shifts ::
  "(string \<Rightarrow> int option) \<Rightarrow> (nat \<Rightarrow> real) \<Rightarrow> globals \<Rightarrow> shift list \<Rightarrow> nat
     \<Rightarrow> error option \<times> nat \<times> shift list" where
  "resolve_shifts hostDay rnd g [] n = (None, n, [])"
| "resolve_shifts hostDay rnd g (s # ss) n =
     (if length (assigned s) \<le> 1 then
        (case resolve_shifts hostDay rnd g ss n of (e, n', ss') \<Rightarrow> (e, n', s # ss'))
      else
        (case choose_resident hostDay rnd g (assigned s) None n of
           Inl e \<Rightarrow> (Some e, n, s # ss)
         | Inr (chosen, n') \<Rightarrow>
             (case resolve_shifts hostDay rnd g ss n' of
                (e, n'', ss') \<Rightarrow>
                  (e, n'', s\<lparr>assigned := (case chosen of None \<Rightarrow> [] | Some c \<Rightarrow> [c])\<rparr> # ss'))))"

text \<open>
  Second part: every resident of \<^verbatim>\<open>users\<close> gets an empty pick array, then each
  shift id is pushed onto the array of each assigned name (\<open>TypeError\<close> for a name
  without an array).
\<close>

fun push_assigned ::
  "string \<Rightarrow> string list \<Rightarrow> (string \<rightharpoonup> string list) \<Rightarrow> error option \<times> (string \<rightharpoonup> string list)" where
  "push_assigned ident [] up = (None, up)"
| "push_assigned ident (u # us) up =
     (case up u of
        None \<Rightarrow> (Some TypeError, up)
      | Some ps \<Rightarrow> push_assigned ident us (up(u \<mapsto> ps @ [ident])))"

fun rebuild_picks ::
  "shift list \<Rightarrow> (string \<rightharpoonup> string list) \<Rightarrow> error option \<times> (string \<rightharpoonup> string list)" where
  "rebuild_picks [] up = (None, up)"
| "rebuild_picks (s # ss) up =
     (case push_assigned (shift_id s) (assigned s) up of
        (Some e, up') \<Rightarrow> (Some e, up')
      | (None, up') \<Rightarrow> rebuild_picks ss up')"

definition resolveConflicts ::
  "(string \<Rightarrow> int option) \<Rightarrow> (nat \<Rightarrow> real) \<Rightarrow> nat \<Rightarrow> globals \<Rightarrow> error option \<times> nat \<times> globals" where
  "resolveConflicts hostDay rnd n g =
     (case resolve_shifts hostDay rnd g (g_shifts g) n of
        (Some e, n', ss') \<Rightarrow> (Some e, n', g\<lparr>g_shifts := ss'\<rparr>)
      | (None, n', ss') \<Rightarrow>
          (case rebuild_picks ss' (fold (\<lambda>u m. m(u \<mapsto> [])) users (userPicks g)) of
             (e, up') \<Rightarrow> (e, n', g\<lparr>g_shifts := ss', userPicks := up'\<rparr>)))"


section \<open>The clean static version: assignments derived from the picks\<close>

record config_t =
  slotsPerResident :: nat
  types :: "string list"

record state =
  setupDone :: bool
  config :: config_t
  residents :: "string list"
  shifts :: "shift list"
  picks :: "string \<rightharpoonup> string list"
  finished :: "string \<Rightarrow> bool"

definition DEFAULT_RESIDENTS :: "string list" where
  "DEFAULT_RESIDENTS = [''Resident 1'', ''Resident 2'', ''Resident 3'', ''Resident 4'']"

definition DEFAULT_TYPES :: "string list" where
  "DEFAULT_TYPES = [''Puerta'', ''Observa'', ''Traumato'']"

definition DEFAULT_SLOTS_PER_RESIDENT :: nat where
  "DEFAULT_SLOTS_PER_RESIDENT = 4"

definition FAIRNESS_monFriWeight :: int where
  "FAIRNESS_monFriWeight = 1"

text \<open>\<^verbatim>\<open>hydrateResidents()\<close> gives every resident a pick array.\<close>

definition hydrateResidents :: "state \<Rightarrow> state" where
  "hydrateResidents st =
     st\<lparr>picks := fold (\<lambda>r m. (case m r of None \<Rightarrow> m(r \<mapsto> []) | Some _ \<Rightarrow> m)) (residents st) (picks st)\<rparr>"

definition initial_state :: state where
  "initial_state =
     hydrateResidents
       \<lparr>setupDone = False,
        config = \<lparr>slotsPerResident = DEFAULT_SLOTS_PER_RESIDENT, types = DEFAULT_TYPES\<rparr>,
        residents = DEFAULT_RESIDENTS,
        shifts = [],
        picks = Map.empty,
        finished = (\<lambda>_. False)\<rparr>"

definition idFor :: "string \<Rightarrow> string \<Rightarrow> string" where
  "idFor date type = date @ ''__'' @ toUpperCase type"

definition weekdayUTC :: "string \<Rightarrow> int option" where
  "weekdayUTC isoDate =
     (let parts = split_chr CHR ''-'' isoDate;
          y = Number (nth_opt parts 0);
          m = Number (nth_opt parts 1);
          d = Number (nth_opt parts 2)
      in utc_day y (map_option (\<lambda>m. m - 1) m) d)"

definition isMon :: "string \<Rightarrow> bool" where
  "isMon isoDate = (weekdayUTC isoDate = Some 1)"

definition isFri :: "string \<Rightarrow> bool" where
  "isFri isoDate = (weekdayUTC isoDate = Some 5)"

definition isMonOrFri :: "string \<Rightarrow> bool" where
  "isMonOrFri isoDate = (isMon isoDate \<or> isFri isoDate)"

text \<open>\<^verbatim>\<open>state.picks[name] || []\<close>\<close>

definition picks_or_empty :: "state \<Rightarrow> string \<Rightarrow> string list" where
  "picks_or_empty st name = (case picks st name of None \<Rightarrow> [] | Some ps \<Rightarrow> ps)"

record stats =
  stats_total :: nat
  stats_monfri :: nat

definition statsFor :: "state \<Rightarrow> string \<Rightarrow> stats" where
  "statsFor st name =
     (let ids = picks_or_empty st name
      in \<lparr>stats_total = length ids,
          stats_monfri = foldl (\<lambda>c i.
             c + (case find (\<lambda>x. shift_id x = i) (shifts st) of
                    None \<Rightarrow> 0
                  | Some s \<Rightarrow> if isMonOrFri (shift_date s) then 1 else 0)) 0 ids\<rparr>)"

definition whoIsAssigned :: "state \<Rightarrow> string \<Rightarrow> string list" where
  "whoIsAssigned st shiftId = filter (\<lambda>r. shiftId \<in> set (picks_or_empty st r)) (residents st)"

text \<open>
  The shift list as every view renders it, sorted by date and then by type.
  \<^verbatim>\<open>localeCompare\<close> is the host's collation and stays a parameter.
\<close>

definition sorted_shifts :: "(string \<Rightarrow> string \<Rightarrow> int) \<Rightarrow> state \<Rightarrow> shift list" where
  "sorted_shifts localeCompare st =
     fst (js_sort (\<lambda>a b n.
            (if shift_date a < shift_date b then - 1
             else if shift_date a > shift_date b then 1
             else real_of_int (localeCompare (shift_type a) (shift_type b)), n))
          (shifts st) 0)"

text \<open>The add button of the admin form, with the two form fields as arguments.\<close>

definition addGuardiaBtn_click :: "string \<Rightarrow> string \<Rightarrow> state \<Rightarrow> error option \<times> state" where
  "addGuardiaBtn_click date type st =
     (if date = [] \<or> type = [] then (Some MissingInput, st)
      else (let ident = idFor date type
            in if \<exists>s \<in> set (shifts st). shift_id s = ident then (Some DuplicateShift, st)
               else (None, st\<lparr>shifts := shifts st @
                       [\<lparr>shift_id = ident, shift_date = date, shift_type = type, assigned = []\<rparr>]\<rparr>)))"

text \<open>
  The Remove button of a listed shift: the shift goes, then every resident's pick
  array is filtered (\<open>TypeError\<close> for a resident without an array, with the
  earlier writes in place).
\<close>

fun purge_picks :: "string \<Rightarrow> string list \<Rightarrow> state \<Rightarrow> error option \<times> state" where
  "purge_picks ident [] st = (None, st)"
| "purge_picks ident (r # rs) st =
     (case picks st r of
        None \<Rightarrow> (Some TypeError, st)
      | Some ps \<Rightarrow> purge_picks ident rs (st\<lparr>picks := (picks st)(r \<mapsto> filter (\<lambda>i. i \<noteq> ident) ps)\<rparr>))"

definition removeBtn_onclick :: "string \<Rightarrow> state \<Rightarrow> error option \<times> state" where
  "removeBtn_onclick ident st =
     purge_picks ident (residents st) (st\<lparr>shifts := filter (\<lambda>x. shift_id x \<noteq> ident) (shifts st)\<rparr>)"

text \<open>
  The change handler of the checkbox of shift \<open>ident\<close> in the table of resident
  \<open>name\<close>; \<open>checked\<close> is the new state of the box. Checking is the claim,
  unchecking the release.
\<close>

definition cb_change :: "string \<Rightarrow> string \<Rightarrow> bool \<Rightarrow> state \<Rightarrow> error option \<times> state" where
  "cb_change name ident checked st =
     (case picks st name of
        None \<Rightarrow> (Some TypeError, st)
      | Some arr \<Rightarrow>
          if checked then
            (if length arr \<ge> slotsPerResident (config st) then (Some QuotaExceeded, st)
             else if ident \<notin> set arr then (None, st\<lparr>picks := (picks st)(name \<mapsto> arr @ [ident])\<rparr>)
             else (None, st))
          else (None, st\<lparr>picks := (picks st)(name \<mapsto> filter (\<lambda>x. x \<noteq> ident) arr)\<rparr>))"

text \<open>The finish and unlock buttons.\<close>

definition finishBtn_click :: "string \<Rightarrow> state \<Rightarrow> state" where
  "finishBtn_click me st = st\<lparr>finished := (finished st)(me := True)\<rparr>"

definition unlockBtn_click :: "string \<Rightarrow> state \<Rightarrow> state" where
  "unlockBtn_click me st = st\<lparr>finished := (finished st)(me := False)\<rparr>"

text \<open>
  The button that ends the setup (refused, with an alert, while no shift is
  listed) and the two reset buttons, each after its confirmation dialog: the first
  empties the registry and the residents' pick arrays and unlocks the residents,
  the second puts the default state in place.
\<close>

definition adminFinishBtn_click :: "state \<Rightarrow> state" where
  "adminFinishBtn_click st = (if length (shifts st) = 0 then st else st\<lparr>setupDone := True\<rparr>)"

definition resetSetupBtn_click :: "state \<Rightarrow> state" where
  "resetSetupBtn_click st =
     st\<lparr>shifts := [],
        picks := fold (\<lambda>r m. m(r \<mapsto> [])) (residents st) (picks st),
        finished := fold (\<lambda>r f. f(r := False)) (residents st) (finished st),
        setupDone := False\<rparr>"

definition resetAppBtn_click :: "state \<Rightarrow> state" where
  "resetAppBtn_click st = initial_state"

subsection \<open>Fair conflict resolution\<close>

definition metric :: "state \<Rightarrow> string \<Rightarrow> nat \<times> nat" where
  "metric st name = (let s = statsFor st name in (stats_total s, stats_monfri s))"

definition better :: "nat \<times> nat \<Rightarrow> nat \<times> nat \<Rightarrow> int" where
  "better a b =
     (if fst a \<noteq> fst b then int (fst a) - int (fst b)
      else if FAIRNESS_monFriWeight > 0 \<and> snd a \<noteq> snd b then int (snd a) - int (snd b)
      else 0)"

text \<open>The comparator handed to \<^verbatim>\<open>sort\<close>: a tie draws \<^verbatim>\<open>Math.random() - 0.5\<close>.\<close>

definition fair_cmp :: "(nat \<Rightarrow> real) \<Rightarrow> state \<Rightarrow> string \<Rightarrow> string \<Rightarrow> nat \<Rightarrow> real \<times> nat" where
  "fair_cmp rnd st ra rb n =
     (let cmp = better (metric st ra) (metric st rb)
      in if cmp \<noteq> 0 then (real_of_int cmp, n) else (rnd n - 1 / 2, Suc n))"

text \<open>
  \<^verbatim>\<open>ranked[0]\<close> of an empty array is \<^verbatim>\<open>undefined\<close>, which no resident name
  equals.
\<close>

definition first_of :: "'a list \<Rightarrow> 'a option" where
  "first_of xs = (case xs of [] \<Rightarrow> None | x # _ \<Rightarrow> Some x)"

fun remove_losers :: "string \<Rightarrow> string option \<Rightarrow> string list \<Rightarrow> state \<Rightarrow> error option \<times> state" where
  "remove_losers ident winner [] st = (None, st)"
| "remove_losers ident winner (r # rs) st =
     (if Some r = winner then remove_losers ident winner rs st
      else (case picks st r of
              None \<Rightarrow> (Some TypeError, st)
            | Some ps \<Rightarrow>
                remove_losers ident winner rs
                  (st\<lparr>picks := (picks st)(r \<mapsto> filter (\<lambda>i. i \<noteq> ident) ps)\<rparr>)))"

text \<open>
  The loop over \<^verbatim>\<open>state.shifts\<close>. \<open>idToResidents\<close> was filled before the loop;
  the fairness keys are read from the state as it is when a shift is reached.
\<close>

fun resolve_loop ::
  "(nat \<Rightarrow> real) \<Rightarrow> (string \<rightharpoonup> string list) \<Rightarrow> shift list \<Rightarrow> nat \<Rightarrow> state
     \<Rightarrow> error option \<times> nat \<times> state" where
  "resolve_loop rnd idToResidents [] n st = (None, n, st)"
| "resolve_loop rnd idToResidents (s # ss) n st =
     (case idToResidents (shift_id s) of
        None \<Rightarrow> (Some TypeError, n, st)
      | Some contenders \<Rightarrow>
          if length contenders \<le> 1 then resolve_loop rnd idToResidents ss n st
          else
            (case js_sort (fair_cmp rnd st) contenders n of
               (ranked, n') \<Rightarrow>
                 (case remove_losers (shift_id s) (first_of ranked) contenders st of
                    (Some e, st') \<Rightarrow> (Some e, n', st')
                  | (None, st') \<Rightarrow> resolve_loop rnd idToResidents ss n' st')))"

text \<open>The table \<^verbatim>\<open>idToResidents\<close>, filled from the state the pass starts in.\<close>

definition idToResidents :: "state \<Rightarrow> (string \<rightharpoonup> string list)" where
  "idToResidents st =
     fold (\<lambda>s m. m(shift_id s \<mapsto> whoIsAssigned st (shift_id s))) (shifts st) Map.empty"

definition resolveConflictsFair :: "(nat \<Rightarrow> real) \<Rightarrow> nat \<Rightarrow> state \<Rightarrow> error option \<times> nat \<times> state" where
  "resolveConflictsFair rnd n st = resolve_loop rnd (idToResidents st) (shifts st) n st"

subsection \<open>Random fill\<close>

definition fill_cmp :: "(nat \<Rightarrow> real) \<Rightarrow> state \<Rightarrow> string \<Rightarrow> string \<Rightarrow> nat \<Rightarrow> real \<times> nat" where
  "fill_cmp rnd st ra rb n =
     (let a = statsFor st ra; b = statsFor st rb
      in if stats_total a \<noteq> stats_total b
           then (real_of_int (int (stats_total a) - int (stats_total b)), n)
         else if stats_monfri a \<noteq> stats_monfri b
           then (real_of_int (int (stats_monfri a) - int (stats_monfri b)), n)
         else (rnd n - 1 / 2, Suc n))"

text \<open>The inner loop over \<^verbatim>\<open>ranked.slice(1)\<close>, left at the first resident with room.\<close>

fun try_next :: "string \<Rightarrow> string list \<Rightarrow> state \<Rightarrow> error option \<times> state" where
  "try_next ident [] st = (None, st)"
| "try_next ident (cand # rest) st =
     (case picks st cand of
        None \<Rightarrow> (Some TypeError, st)
      | Some ps \<Rightarrow>
          if ident \<notin> set ps \<and> length ps < slotsPerResident (config st)
          then (None, st\<lparr>picks := (picks st)(cand \<mapsto> ps @ [ident])\<rparr>)
          else try_next ident rest st)"

text \<open>
  One empty shift. With no resident at all \<^verbatim>\<open>ranked[0]\<close> is \<^verbatim>\<open>undefined\<close> and
  the lookup \<^verbatim>\<open>state.picks[undefined]\<close> reads the property named \<^verbatim>\<open>undefined\<close>.
\<close>

definition assign_one :: "(nat \<Rightarrow> real) \<Rightarrow> shift \<Rightarrow> nat \<Rightarrow> state \<Rightarrow> error option \<times> nat \<times> state" where
  "assign_one rnd s n st =
     (case js_sort (fill_cmp rnd st) (residents st) n of
        (ranked, n') \<Rightarrow>
          (let chosen = (case ranked of [] \<Rightarrow> ''undefined'' | c # _ \<Rightarrow> c)
           in case picks st chosen of
                None \<Rightarrow> (Some TypeError, n', st)
              | Some ps \<Rightarrow>
                  if shift_id s \<notin> set ps \<and> length ps < slotsPerResident (config st)
                  then (None, n', st\<lparr>picks := (picks st)(chosen \<mapsto> ps @ [shift_id s])\<rparr>)
                  else (case try_next (shift_id s) (tl ranked) st of (e, st') \<Rightarrow> (e, n', st'))))"

fun assign_loop :: "(nat \<Rightarrow> real) \<Rightarrow> shift list \<Rightarrow> nat \<Rightarrow> state \<Rightarrow> error option \<times> nat \<times> state" where
  "assign_loop rnd [] n st = (None, n, st)"
| "assign_loop rnd (s # ss) n st =
     (case assign_one rnd s n st of
        (Some e, n', st') \<Rightarrow> (Some e, n', st')
      | (None, n', st') \<Rightarrow> assign_loop rnd ss n' st')"

definition randomAssignRemaining :: "(nat \<Rightarrow> real) \<Rightarrow> nat \<Rightarrow> state \<Rightarrow> error option \<times> nat \<times> state" where
  "randomAssignRemaining rnd n st =
     (let empty = filter (\<lambda>s. length (whoIsAssigned st (shift_id s)) = 0) (shifts st)
      in if empty = [] then (None, n, st) else assign_loop rnd empty n st)"

text \<open>
  The click handler of the random button: the fill, the re-rendering, and the
  toast it always shows.
\<close>

definition randomBtn_click :: "(nat \<Rightarrow> real) \<Rightarrow> nat \<Rightarrow> state \<Rightarrow> error + (string \<times> nat \<times> state)" where
  "randomBtn_click rnd n st =
     (case randomAssignRemaining rnd n st of
        (Some e, n', st') \<Rightarrow> Inl e
      | (None, n', st') \<Rightarrow> Inr (''Random assignment complete.'', n', st'))"


section \<open>Sequences of operations and well-formed ledgers\<close>

text \<open>The user actions of script.js, and a run of them from a draw count and the globals.\<close>

datatype action =
    AddShift string string
  | Start string
  | Back
  | Select string
  | Finish
  | Resolve

fun perform ::
  "(string \<Rightarrow> int option) \<Rightarrow> (nat \<Rightarrow> real) \<Rightarrow> action \<Rightarrow> nat \<times> globals \<Rightarrow> nat \<times> globals" where
  "perform hostDay rnd (AddShift date type) (n, g) = (n, snd (addNewShift date type g))"
| "perform hostDay rnd (Start name) (n, g) = (n, snd (startBtn_click name g))"
| "perform hostDay rnd Back (n, g) = (n, snd (backBtn_click g))"
| "perform hostDay rnd (Select shiftId) (n, g) = (n, snd (handleSelect shiftId g))"
| "perform hostDay rnd Finish (n, g) = (n, snd (finishSelection g))"
| "perform hostDay rnd Resolve (n, g) = snd (resolveConflicts hostDay rnd n g)"

definition run_actions ::
  "(string \<Rightarrow> int option) \<Rightarrow> (nat \<Rightarrow> real) \<Rightarrow> action list \<Rightarrow> nat \<times> globals \<Rightarrow> nat \<times> globals" where
  "run_actions hostDay rnd acts ng = fold (perform hostDay rnd) acts ng"

text \<open>
  The globals are well formed when shift ids are unique, exactly the residents of
  \<^verbatim>\<open>users\<close> have a pick array, every pick array is duplicate-free, within the
  limit and refers to listed shifts, and the stored assignments agree with the
  pick arrays.
\<close>

definition ledger_ok :: "globals \<Rightarrow> bool" where
  "ledger_ok g =
     (distinct (map shift_id (g_shifts g)) \<and>
      dom (userPicks g) = set users \<and>
      (\<forall>u ps. userPicks g u = Some ps \<longrightarrow>
         distinct ps \<and> length ps \<le> maxShiftsPerUser \<and> set ps \<subseteq> shift_id ` set (g_shifts g)) \<and>
      (\<forall>s \<in> set (g_shifts g). \<forall>u.
         (u \<in> set (assigned s)) = (\<exists>ps. userPicks g u = Some ps \<and> shift_id s \<in> set ps)))"

text \<open>The fairness key script.js compares: Monday/Friday count first, then pick count.\<close>

definition key_monfri_first :: "(string \<Rightarrow> int option) \<Rightarrow> globals \<Rightarrow> string \<Rightarrow> nat \<times> nat" where
  "key_monfri_first hostDay g u =
     ((case computeMonFriCount hostDay g u of Inl _ \<Rightarrow> 0 | Inr c \<Rightarrow> c),
      (case userPicks g u of None \<Rightarrow> 0 | Some ps \<Rightarrow> length ps))"

text \<open>Claims and releases in the clean version, as calls of the checkbox handler.\<close>

datatype pick_op = Claim string string | Unclaim string string

fun apply_pick_op :: "pick_op \<Rightarrow> state \<Rightarrow> state" where
  "apply_pick_op (Claim name ident) st = snd (cb_change name ident True st)"
| "apply_pick_op (Unclaim name ident) st = snd (cb_change name ident False st)"

definition run_pick_ops :: "pick_op list \<Rightarrow> state \<Rightarrow> state" where
  "run_pick_ops ops st = fold apply_pick_op ops st"

definition within_quota :: "state \<Rightarrow> bool" where
  "within_quota st =
     list_all (\<lambda>r. length (picks_or_empty st r) \<le> slotsPerResident (config st)) (residents st)"

definition hydrated :: "state \<Rightarrow> bool" where
  "hydrated st = list_all (\<lambda>r. picks st r \<noteq> None) (residents st)"

text \<open>
  A registry built by the add handlers: every id is the one derived from the
  shift's date and type, and the fields the handler insists on are present.
\<close>

definition derived_ids :: "shift list \<Rightarrow> bool" where
  "derived_ids ss =
     list_all (\<lambda>s. shift_date s \<noteq> [] \<and> shift_type s \<noteq> [] \<and>
                    shift_id s = idFor (shift_date s) (shift_type s)) ss"

definition derived_ids_script :: "shift list \<Rightarrow> bool" where
  "derived_ids_script ss =
     list_all (\<lambda>s. shift_date s \<noteq> [] \<and>
                    shift_id s = shift_date s @ ''-'' @ toLowerCase (shift_type s)) ss"


text \<open>
  The events of the clean version that write to the state. \<^verbatim>\<open>renderAdminList\<close>
  builds one Remove button for each listed shift, and \<^verbatim>\<open>renderPlanning\<close> one
  checkbox for each listed shift in the table of a resident chosen at the login;
  an event is offered in a state when its control belongs to the page rendered
  for that state. A run fires a sequence of events, each offered in the state it
  meets, and threads the draw count; it is \<open>None\<close> when an event is not offered.
\<close>

datatype event =
    AddGuardia string string
  | RemoveGuardia string
  | ChangeBox string string bool
  | FinishBtn string
  | UnlockBtn string
  | ResolveBtn
  | RandomBtn
  | AdminFinishBtn
  | ResetSetupBtn
  | ResetAppBtn

fun offered :: "state \<Rightarrow> event \<Rightarrow> bool" where
  "offered st (RemoveGuardia ident) = (ident \<in> shift_id ` set (shifts st))"
| "offered st (ChangeBox name ident checked) =
     (name \<in> set (residents st) \<and> ident \<in> shift_id ` set (shifts st))"
| "offered st ev = True"

fun fire :: "(nat \<Rightarrow> real) \<Rightarrow> event \<Rightarrow> nat \<times> state \<Rightarrow> nat \<times> state" where
  "fire rnd (AddGuardia date type) (n, st) = (n, snd (addGuardiaBtn_click date type st))"
| "fire rnd (RemoveGuardia ident) (n, st) = (n, snd (removeBtn_onclick ident st))"
| "fire rnd (ChangeBox name ident checked) (n, st) = (n, snd (cb_change name ident checked st))"
| "fire rnd (FinishBtn me) (n, st) = (n, finishBtn_click me st)"
| "fire rnd (UnlockBtn me) (n, st) = (n, unlockBtn_click me st)"
| "fire rnd ResolveBtn (n, st) = snd (resolveConflictsFair rnd n st)"
| "fire rnd RandomBtn (n, st) = snd (randomAssignRemaining rnd n st)"
| "fire rnd AdminFinishBtn (n, st) = (n, adminFinishBtn_click st)"
| "fire rnd ResetSetupBtn (n, st) = (n, resetSetupBtn_click st)"
| "fire rnd ResetAppBtn (n, st) = (n, resetAppBtn_click st)"

fun run_page :: "(nat \<Rightarrow> real) \<Rightarrow> event list \<Rightarrow> nat \<times> state \<Rightarrow> (nat \<times> state) option" where
  "run_page rnd [] ns = Some ns"
| "run_page rnd (ev # evs) ns =
     (if offered (snd ns) ev then run_page rnd evs (fire rnd ev ns) else None)"

section \<open>Comparators and example ledgers\<close>

text \<open>A comparator respects a key when its sign never contradicts the lexicographic order of the keys.\<close>

definition cmp_respects :: "('a \<Rightarrow> 'a \<Rightarrow> nat \<Rightarrow> real \<times> nat) \<Rightarrow> ('a \<Rightarrow> nat \<times> nat) \<Rightarrow> bool" where
  "cmp_respects cmp key = (\<forall>x y n. (fst (cmp x y n) < 0 \<longrightarrow> lex_le (key x) (key y)) \<and>
                                   (\<not> fst (cmp x y n) < 0 \<longrightarrow> lex_le (key y) (key x)))"

definition ex_registry :: state where
  "ex_registry = snd (addGuardiaBtn_click ''2025-09-01'' ''Puerta'' initial_state)"

definition ex_registry_script :: globals where
  "ex_registry_script = snd (addNewShift ''2025-09-01'' ''Puerta'' initial_globals)"

text \<open>
  The scenario ledger of the clean version: the Monday shift \<open>S1\<close> is claimed by
  Resident 1, who holds nothing else, and by Resident 2, who also holds the
  Wednesday and the Thursday shift.
\<close>

definition ex_shift :: "string \<Rightarrow> string \<Rightarrow> shift" where
  "ex_shift ident date = \<lparr>shift_id = ident, shift_date = date, shift_type = ''Puerta'', assigned = []\<rparr>"

definition ex_state :: state where
  "ex_state =
     \<lparr>setupDone = True,
      config = \<lparr>slotsPerResident = 4, types = DEFAULT_TYPES\<rparr>,
      residents = [''Resident 1'', ''Resident 2'', ''Resident 3'', ''Resident 4''],
      shifts = [ex_shift ''S1'' ''2025-09-01'', ex_shift ''S2'' ''2025-09-03'', ex_shift ''S3'' ''2025-09-04''],
      picks = [''Resident 1'' \<mapsto> [''S1''], ''Resident 2'' \<mapsto> [''S1'', ''S2'', ''S3''],
               ''Resident 3'' \<mapsto> [], ''Resident 4'' \<mapsto> []],
      finished = (\<lambda>_. False)\<rparr>"

text \<open>
  The ledger after the shift \<open>ident\<close> went to \<open>w\<close> among the contenders \<open>cs\<close>:
  every other contender loses the shift. A ledger has shrunk when nothing but
  pick arrays changed and each of them kept a subset of its entries.
\<close>

definition award :: "string \<Rightarrow> string \<Rightarrow> string list \<Rightarrow> state \<Rightarrow> state" where
  "award ident w cs st =
     st\<lparr>picks := (\<lambda>r. if r \<in> set cs \<and> r \<noteq> w
                      then map_option (filter (\<lambda>i. i \<noteq> ident)) (picks st r)
                      else picks st r)\<rparr>"

definition shrunk :: "state \<Rightarrow> state \<Rightarrow> bool" where
  "shrunk st st' =
     (residents st' = residents st \<and> shifts st' = shifts st \<and> config st' = config st \<and>
      (\<forall>r. (picks st r = None \<longrightarrow> picks st' r = None) \<and>
           (\<forall>ps. picks st r = Some ps \<longrightarrow> (\<exists>ps'. picks st' r = Some ps' \<and> set ps' \<subseteq> set ps))))"

text \<open>
  What the first loop of \<^verbatim>\<open>resolveConflicts\<close> in script.js makes of one shift: a
  shift with at most one assigned resident is kept; a contested one keeps a single
  assigned resident, who has the least key when no name is empty.
\<close>

definition resolved_from :: "(string \<Rightarrow> int option) \<Rightarrow> globals \<Rightarrow> shift \<Rightarrow> shift \<Rightarrow> bool" where
  "resolved_from hostDay g s s' =
     (if length (assigned s) \<le> 1 then s' = s
      else (\<exists>w \<in> set (assigned s). s' = s\<lparr>assigned := [w]\<rparr> \<and>
              ([] \<notin> set (assigned s) \<longrightarrow>
                 (\<forall>c \<in> set (assigned s).
                    lex_le (key_monfri_first hostDay g w) (key_monfri_first hostDay g c)))))"

text \<open>
  What the inner loop of \<^verbatim>\<open>resolveConflicts\<close> guarantees of its result \<open>x\<close>, given
  the names \<open>rs\<close> still to visit and the running choice.
\<close>

definition chosen_ok :: "(string \<Rightarrow> int option) \<Rightarrow> globals \<Rightarrow> string list \<Rightarrow> string option \<Rightarrow> string \<Rightarrow> bool" where
  "chosen_ok hostDay g rs chosen x =
     ((x \<in> set rs \<or> chosen = Some x) \<and>
      ([] \<notin> set rs \<and> chosen \<noteq> Some [] \<longrightarrow>
         (\<forall>c \<in> set rs. lex_le (key_monfri_first hostDay g x) (key_monfri_first hostDay g c)) \<and>
         (\<forall>c. chosen = Some c \<longrightarrow> lex_le (key_monfri_first hostDay g x) (key_monfri_first hostDay g c))))"

text \<open>The same scenario in the globals of script.js.\<close>

definition ex_assigned :: "string \<Rightarrow> string \<Rightarrow> string list \<Rightarrow> shift" where
  "ex_assigned ident date names =
     \<lparr>shift_id = ident, shift_date = date, shift_type = ''Puerta'', assigned = names\<rparr>"

definition ex_globals :: globals where
  "ex_globals =
     \<lparr>g_shifts = [ex_assigned ''S1'' ''2025-09-01'' [''Resident 1'', ''Resident 2''],
                  ex_assigned ''S2'' ''2025-09-03'' [''Resident 2''],
                  ex_assigned ''S3'' ''2025-09-04'' [''Resident 2'']],
      userPicks = [''Resident 1'' \<mapsto> [''S1''], ''Resident 2'' \<mapsto> [''S1'', ''S2'', ''S3''],
                   ''Resident 3'' \<mapsto> [], ''Resident 4'' \<mapsto> []],
      finishedUsers = (\<lambda>_. False),
      currentUser = None\<rparr>"

text \<open>
  Globals reached through the interface of script.js: Resident 1 takes the later
  shift first, then the earlier one.
\<close>

definition ex_order :: globals where
  "ex_order =
     snd (run_actions (\<lambda>_. None) (\<lambda>_. 0)
            [AddShift ''2025-09-01'' ''Puerta'', AddShift ''2025-09-03'' ''Puerta'',
             Start ''Resident 1'', Select ''2025-09-03-puerta'', Select ''2025-09-01-puerta'']
            (0, initial_globals))"

text \<open>Resident 1 has taken four of five shifts, in script.js and in the clean version.\<close>

definition ex_full_globals :: globals where
  "ex_full_globals =
     snd (run_actions (\<lambda>_. None) (\<lambda>_. 0)
            [AddShift ''2025-09-01'' ''Puerta'', AddShift ''2025-09-02'' ''Puerta'',
             AddShift ''2025-09-03'' ''Puerta'', AddShift ''2025-09-04'' ''Puerta'',
             AddShift ''2025-09-05'' ''Puerta'', Start ''Resident 1'',
             Select ''2025-09-01-puerta'', Select ''2025-09-02-puerta'',
             Select ''2025-09-03-puerta'', Select ''2025-09-04-puerta'']
            (0, initial_globals))"

definition ex_full_state :: state where
  "ex_full_state =
     \<lparr>setupDone = True,
      config = \<lparr>slotsPerResident = 4, types = DEFAULT_TYPES\<rparr>,
      residents = [''Resident 1'', ''Resident 2'', ''Resident 3'', ''Resident 4''],
      shifts = [ex_shift ''S1'' ''2025-09-01'', ex_shift ''S2'' ''2025-09-02'', ex_shift ''S3'' ''2025-09-03'',
                ex_shift ''S4'' ''2025-09-04'', ex_shift ''S5'' ''2025-09-05''],
      picks = [''Resident 1'' \<mapsto> [''S1'', ''S2'', ''S3'', ''S4''], ''Resident 2'' \<mapsto> [],
               ''Resident 3'' \<mapsto> [], ''Resident 4'' \<mapsto> []],
      finished = (\<lambda>_. False)\<rparr>"

text \<open>
  A ledger that tells the two orders of the key apart: the contested shift is a
  Wednesday; Resident 1 also holds a Monday, Resident 2 two more mid-week shifts.
\<close>

definition ex_midweek_state :: state where
  "ex_midweek_state =
     \<lparr>setupDone = True,
      config = \<lparr>slotsPerResident = 4, types = DEFAULT_TYPES\<rparr>,
      residents = [''Resident 1'', ''Resident 2'', ''Resident 3'', ''Resident 4''],
      shifts = [ex_shift ''W1'' ''2025-09-03'', ex_shift ''M1'' ''2025-09-01'',
                ex_shift ''W2'' ''2025-09-04'', ex_shift ''W3'' ''2025-09-10''],
      picks = [''Resident 1'' \<mapsto> [''W1'', ''M1''], ''Resident 2'' \<mapsto> [''W1'', ''W2'', ''W3''],
               ''Resident 3'' \<mapsto> [], ''Resident 4'' \<mapsto> []],
      finished = (\<lambda>_. False)\<rparr>"

definition ex_midweek_globals :: globals where
  "ex_midweek_globals =
     \<lparr>g_shifts = [ex_assigned ''W1'' ''2025-09-03'' [''Resident 1'', ''Resident 2''],
                  ex_assigned ''M1'' ''2025-09-01'' [''Resident 1''],
                  ex_assigned ''W2'' ''2025-09-04'' [''Resident 2''],
                  ex_assigned ''W3'' ''2025-09-10'' [''Resident 2'']],
      userPicks = [''Resident 1'' \<mapsto> [''W1'', ''M1''], ''Resident 2'' \<mapsto> [''W1'', ''W2'', ''W3''],
                   ''Resident 3'' \<mapsto> [], ''Resident 4'' \<mapsto> []],
      finishedUsers = (\<lambda>_. False),
      currentUser = None\<rparr>"

text \<open>
  Two comparators agree when neither lowers the draw count and the second returns
  what the first returns wherever the first draws nothing.
\<close>

definition cmp_agrees ::
  "('a \<Rightarrow> 'a \<Rightarrow> nat \<Rightarrow> real \<times> nat) \<Rightarrow> ('a \<Rightarrow> 'a \<Rightarrow> nat \<Rightarrow> real \<times> nat) \<Rightarrow> bool" where
  "cmp_agrees cmp cmp' =
     (\<forall>x y k. k \<le> snd (cmp x y k) \<and> (snd (cmp x y k) = k \<longrightarrow> cmp' x y k = cmp x y k))"

text \<open>
  Two contested shifts: both residents claim the Monday shift \<open>S1\<close> and the
  Wednesday shift \<open>S2\<close>; Resident 2 also holds the Thursday shift \<open>S3\<close>. In
  \<open>ex_stale_released\<close> Resident 2 has given up \<open>S1\<close> by hand, which is the removal
  that resolving \<open>S1\<close> performs.
\<close>

definition ex_stale_globals :: globals where
  "ex_stale_globals =
     \<lparr>g_shifts = [ex_assigned ''S1'' ''2025-09-01'' [''Resident 1'', ''Resident 2''],
                  ex_assigned ''S2'' ''2025-09-03'' [''Resident 1'', ''Resident 2''],
                  ex_assigned ''S3'' ''2025-09-04'' [''Resident 2'']],
      userPicks = [''Resident 1'' \<mapsto> [''S1'', ''S2''], ''Resident 2'' \<mapsto> [''S1'', ''S2'', ''S3''],
                   ''Resident 3'' \<mapsto> [], ''Resident 4'' \<mapsto> []],
      finishedUsers = (\<lambda>_. False),
      currentUser = None\<rparr>"

definition ex_stale_released :: globals where
  "ex_stale_released =
     snd (handleSelect ''S1'' (ex_stale_globals\<lparr>currentUser := Some ''Resident 2''\<rparr>))"

definition ex_stale_state :: state where
  "ex_stale_state =
     \<lparr>setupDone = True,
      config = \<lparr>slotsPerResident = 4, types = DEFAULT_TYPES\<rparr>,
      residents = [''Resident 1'', ''Resident 2'', ''Resident 3'', ''Resident 4''],
      shifts = [ex_shift ''S1'' ''2025-09-01'', ex_shift ''S2'' ''2025-09-03'', ex_shift ''S3'' ''2025-09-04''],
      picks = [''Resident 1'' \<mapsto> [''S1'', ''S2''], ''Resident 2'' \<mapsto> [''S1'', ''S2'', ''S3''],
               ''Resident 3'' \<mapsto> [], ''Resident 4'' \<mapsto> []],
      finished = (\<lambda>_. False)\<rparr>"

text \<open>
  A ledger whose shift array is not in the order of the listing: the Wednesday
  shift \<open>S2\<close> was added before the Monday shift \<open>S1\<close>. Both are claimed by
  Resident 1, who also holds the Friday shift \<open>S4\<close>, and by Resident 2, who also
  holds the Thursday shift \<open>S3\<close> and the Tuesday shift \<open>S5\<close>.
\<close>

definition ex_unsorted_state :: state where
  "ex_unsorted_state =
     \<lparr>setupDone = True,
      config = \<lparr>slotsPerResident = 4, types = DEFAULT_TYPES\<rparr>,
      residents = [''Resident 1'', ''Resident 2'', ''Resident 3'', ''Resident 4''],
      shifts = [ex_shift ''S2'' ''2025-09-03'', ex_shift ''S1'' ''2025-09-01'', ex_shift ''S3'' ''2025-09-04'',
                ex_shift ''S4'' ''2025-09-05'', ex_shift ''S5'' ''2025-09-09''],
      picks = [''Resident 1'' \<mapsto> [''S1'', ''S2'', ''S4''], ''Resident 2'' \<mapsto> [''S1'', ''S2'', ''S3'', ''S5''],
               ''Resident 3'' \<mapsto> [], ''Resident 4'' \<mapsto> []],
      finished = (\<lambda>_. False)\<rparr>"

text \<open>
  The test the random fill applies to a resident for the shift \<open>ident\<close>, and the
  ledger after the shift was pushed onto the resident's pick array.
\<close>

definition has_room :: "state \<Rightarrow> string \<Rightarrow> string \<Rightarrow> bool" where
  "has_room st ident r =
     (ident \<notin> set (picks_or_empty st r) \<and> length (picks_or_empty st r) < slotsPerResident (config st))"

definition give :: "string \<Rightarrow> string \<Rightarrow> state \<Rightarrow> state" where
  "give ident r st = st\<lparr>picks := (picks st)(r \<mapsto> picks_or_empty st r @ [ident])\<rparr>"

text \<open>
  Every resident holds the four shifts the limit allows, and the shift \<open>E\<close> has
  no claimant.
\<close>

definition ex_all_full :: state where
  "ex_all_full =
     \<lparr>setupDone = True,
      config = \<lparr>slotsPerResident = DEFAULT_SLOTS_PER_RESIDENT, types = DEFAULT_TYPES\<rparr>,
      residents = DEFAULT_RESIDENTS,
      shifts = [ex_shift ''A1'' ''2025-09-01'', ex_shift ''A2'' ''2025-09-02'', ex_shift ''A3'' ''2025-09-03'',
                ex_shift ''A4'' ''2025-09-04'', ex_shift ''B1'' ''2025-09-08'', ex_shift ''B2'' ''2025-09-09'',
                ex_shift ''B3'' ''2025-09-10'', ex_shift ''B4'' ''2025-09-11'', ex_shift ''C1'' ''2025-09-15'',
                ex_shift ''C2'' ''2025-09-16'', ex_shift ''C3'' ''2025-09-17'', ex_shift ''C4'' ''2025-09-18'',
                ex_shift ''D1'' ''2025-09-22'', ex_shift ''D2'' ''2025-09-23'', ex_shift ''D3'' ''2025-09-24'',
                ex_shift ''D4'' ''2025-09-25'', ex_shift ''E'' ''2025-09-30''],
      picks = [''Resident 1'' \<mapsto> [''A1'', ''A2'', ''A3'', ''A4''], ''Resident 2'' \<mapsto> [''B1'', ''B2'', ''B3'', ''B4''],
               ''Resident 3'' \<mapsto> [''C1'', ''C2'', ''C3'', ''C4''], ''Resident 4'' \<mapsto> [''D1'', ''D2'', ''D3'', ''D4'']],
      finished = (\<lambda>_. False)\<rparr>"

text \<open>Only Resident 1 is at the limit, the others hold nothing; the shift \<open>E\<close> has no claimant.\<close>

definition ex_one_full :: state where
  "ex_one_full =
     \<lparr>setupDone = True,
      config = \<lparr>slotsPerResident = DEFAULT_SLOTS_PER_RESIDENT, types = DEFAULT_TYPES\<rparr>,
      residents = DEFAULT_RESIDENTS,
      shifts = [ex_shift ''A1'' ''2025-09-01'', ex_shift ''A2'' ''2025-09-02'', ex_shift ''A3'' ''2025-09-03'',
                ex_shift ''A4'' ''2025-09-04'', ex_shift ''E'' ''2025-09-30''],
      picks = [''Resident 1'' \<mapsto> [''A1'', ''A2'', ''A3'', ''A4''], ''Resident 2'' \<mapsto> [],
               ''Resident 3'' \<mapsto> [], ''Resident 4'' \<mapsto> []],
      finished = (\<lambda>_. False)\<rparr>"

text \<open>
  A ledger with two shifts without claimant, the Wednesday shift \<open>E2\<close> added before
  the Monday shift \<open>E1\<close>; the four residents have the keys \<open>(1, 0)\<close>, \<open>(1, 1)\<close>,
  \<open>(3, 0)\<close> and \<open>(3, 1)\<close>.
\<close>

definition ex_fill_unsorted :: state where
  "ex_fill_unsorted =
     \<lparr>setupDone = True,
      config = \<lparr>slotsPerResident = DEFAULT_SLOTS_PER_RESIDENT, types = DEFAULT_TYPES\<rparr>,
      residents = DEFAULT_RESIDENTS,
      shifts = [ex_shift ''W0'' ''2025-09-10'', ex_shift ''M0'' ''2025-09-08'', ex_shift ''W1'' ''2025-09-02'',
                ex_shift ''W2'' ''2025-09-04'', ex_shift ''W3'' ''2025-09-09'', ex_shift ''M1'' ''2025-09-15'',
                ex_shift ''W4'' ''2025-09-11'', ex_shift ''W5'' ''2025-09-16'',
                ex_shift ''E2'' ''2025-09-03'', ex_shift ''E1'' ''2025-09-01''],
      picks = [''Resident 1'' \<mapsto> [''W0''], ''Resident 2'' \<mapsto> [''M0''],
               ''Resident 3'' \<mapsto> [''W1'', ''W2'', ''W3''], ''Resident 4'' \<mapsto> [''M1'', ''W4'', ''W5'']],
      finished = (\<lambda>_. False)\<rparr>"

section \<open>Properties of the sort model\<close>

lemma mset_insert_sorted: "mset (fst (insert_sorted cmp x ys n)) = add_mset x (mset ys)"
proof (induction ys arbitrary: n)
  case Nil
  then show ?case by simp
next
  case (Cons y ys)
  obtain c n' where c: "cmp x y n = (c, n')" by (cases "cmp x y n")
  obtain r n'' where r: "insert_sorted cmp x ys n' = (r, n'')" by (cases "insert_sorted cmp x ys n'")
  have "mset r = add_mset x (mset ys)" using Cons.IH[of n'] r by simp
  then show ?case using c r by simp
qed

lemma mset_sort_loop: "mset (fst (sort_loop cmp xs acc n)) = mset xs + mset acc"
proof (induction xs arbitrary: acc n)
  case Nil
  then show ?case by simp
next
  case (Cons x xs)
  obtain acc' n' where ins: "insert_sorted cmp x acc n = (acc', n')" by (cases "insert_sorted cmp x acc n")
  have "mset acc' = add_mset x (mset acc)" using mset_insert_sorted[of cmp x acc n] ins by simp
  then show ?case using Cons.IH[of acc' n'] ins by simp
qed

lemma mset_js_sort: "mset (fst (js_sort cmp xs n)) = mset xs"
  by (simp add: js_sort_def mset_sort_loop)

lemma set_js_sort: "set (fst (js_sort cmp xs n)) = set xs"
  using mset_js_sort[of cmp xs n] by (metis set_mset_mset)

lemma length_js_sort: "length (fst (js_sort cmp xs n)) = length xs"
  using mset_js_sort[of cmp xs n] by (metis size_mset)

lemma lex_le_refl: "lex_le a a" by (simp add: lex_le_def)
lemma lex_le_trans: "lex_le a b \<Longrightarrow> lex_le b c \<Longrightarrow> lex_le a c" by (auto simp: lex_le_def)
lemma lex_le_total: "lex_le a b \<or> lex_le b a" by (auto simp: lex_le_def)

lemma sorted_insert_sorted:
  assumes "cmp_respects cmp key" "sorted_wrt (\<lambda>a b. lex_le (key a) (key b)) ys"
  shows "sorted_wrt (\<lambda>a b. lex_le (key a) (key b)) (fst (insert_sorted cmp x ys n))"
  using assms(2)
proof (induction ys arbitrary: n)
  case Nil
  then show ?case by simp
next
  case (Cons y ys)
  obtain c n' where c: "cmp x y n = (c, n')" by (cases "cmp x y n")
  show ?case
  proof (cases "c < 0")
    case True
    then have xy: "lex_le (key x) (key y)" using assms(1) c unfolding cmp_respects_def by (metis fst_conv)
    then have "\<forall>z\<in>set ys. lex_le (key x) (key z)" using Cons.prems by (auto intro: lex_le_trans)
    then show ?thesis using True c xy Cons.prems by simp
  next
    case False
    then have yx: "lex_le (key y) (key x)" using assms(1) c unfolding cmp_respects_def by (metis fst_conv)
    obtain r n'' where r: "insert_sorted cmp x ys n' = (r, n'')" by (cases "insert_sorted cmp x ys n'")
    have sr: "sorted_wrt (\<lambda>a b. lex_le (key a) (key b)) r" using Cons.IH[of n'] Cons.prems r by simp
    have "set r = insert x (set ys)" using mset_insert_sorted[of cmp x ys n'] r
      by (metis fst_conv set_mset_add_mset_insert set_mset_mset)
    then have "\<forall>z\<in>set r. lex_le (key y) (key z)" using yx Cons.prems by auto
    then show ?thesis using False c r sr by simp
  qed
qed

lemma sorted_sort_loop:
  assumes "cmp_respects cmp key" "sorted_wrt (\<lambda>a b. lex_le (key a) (key b)) acc"
  shows "sorted_wrt (\<lambda>a b. lex_le (key a) (key b)) (fst (sort_loop cmp xs acc n))"
  using assms(2)
proof (induction xs arbitrary: acc n)
  case Nil
  then show ?case by simp
next
  case (Cons x xs)
  obtain acc' n' where ins: "insert_sorted cmp x acc n = (acc', n')" by (cases "insert_sorted cmp x acc n")
  have "sorted_wrt (\<lambda>a b. lex_le (key a) (key b)) acc'"
    using sorted_insert_sorted[OF assms(1) Cons.prems, of x n] ins by simp
  then show ?case using Cons.IH[of acc' n'] ins by simp
qed

lemma sorted_js_sort:
  "cmp_respects cmp key \<Longrightarrow> sorted_wrt (\<lambda>a b. lex_le (key a) (key b)) (fst (js_sort cmp xs n))"
  by (simp add: js_sort_def sorted_sort_loop)

lemma first_of_js_sort_min:
  assumes "cmp_respects cmp key" "first_of (fst (js_sort cmp xs n)) = Some w"
  shows "w \<in> set xs \<and> (\<forall>c\<in>set xs. lex_le (key w) (key c))"
proof -
  obtain rest where r: "fst (js_sort cmp xs n) = w # rest"
    using assms(2) by (auto simp: first_of_def split: list.splits)
  have s: "sorted_wrt (\<lambda>a b. lex_le (key a) (key b)) (w # rest)"
    using sorted_js_sort[OF assms(1), of xs n] r by simp
  have "set xs = set (w # rest)" using set_js_sort[of cmp xs n] r by simp
  then show ?thesis using s by (auto simp: lex_le_refl)
qed

lemma fair_cmp_respects: "cmp_respects (fair_cmp rnd st) (metric st)"
  unfolding cmp_respects_def fair_cmp_def better_def lex_le_def Let_def FAIRNESS_monFriWeight_def
  by (auto split: if_splits)

lemma fill_cmp_respects: "cmp_respects (fill_cmp rnd st) (metric st)"
  unfolding cmp_respects_def fill_cmp_def metric_def lex_le_def Let_def
  by (auto split: if_splits)

section \<open>The shift registry\<close>

lemma addGuardia_duplicate:
  assumes "derived_ids (shifts st)" "s \<in> set (shifts st)" "shift_date s = date" "shift_type s = type"
  shows "addGuardiaBtn_click date type st = (Some DuplicateShift, st)"
proof -
  have "shift_date s \<noteq> [] \<and> shift_type s \<noteq> [] \<and> shift_id s = idFor (shift_date s) (shift_type s)"
    using assms(1,2) by (simp add: derived_ids_def list_all_iff)
  then show ?thesis using assms(2,3,4) by (auto simp: addGuardiaBtn_click_def Let_def)
qed

lemma addNewShift_duplicate:
  assumes "derived_ids_script (g_shifts g)" "s \<in> set (g_shifts g)" "shift_date s = date" "shift_type s = type"
  shows "addNewShift date type g = (Some DuplicateShift, g)"
proof -
  have "shift_date s \<noteq> [] \<and> shift_id s = shift_date s @ ''-'' @ toLowerCase (shift_type s)"
    using assms(1,2) by (simp add: derived_ids_script_def list_all_iff)
  then show ?thesis using assms(2,3,4) by (auto simp: addNewShift_def Let_def)
qed

lemma addGuardia_keeps_derived_ids:
  "derived_ids (shifts st) \<Longrightarrow> derived_ids (shifts (snd (addGuardiaBtn_click date type st)))"
  by (auto simp: addGuardiaBtn_click_def derived_ids_def Let_def)

lemma addNewShift_keeps_derived_ids:
  "derived_ids_script (g_shifts g) \<Longrightarrow> derived_ids_script (g_shifts (snd (addNewShift date type g)))"
  by (auto simp: addNewShift_def derived_ids_script_def Let_def)

lemma addGuardia_twice:
  assumes "date \<noteq> []" "type \<noteq> []"
  shows "addGuardiaBtn_click date type (snd (addGuardiaBtn_click date type st))
         = (Some DuplicateShift, snd (addGuardiaBtn_click date type st))"
proof (cases "\<exists>s \<in> set (shifts st). shift_id s = idFor date type")
  case True
  then have "addGuardiaBtn_click date type st = (Some DuplicateShift, st)"
    using assms by (simp add: addGuardiaBtn_click_def)
  then show ?thesis by simp
next
  case False
  define new where "new = \<lparr>shift_id = idFor date type, shift_date = date, shift_type = type, assigned = []\<rparr>"
  have 1: "addGuardiaBtn_click date type st = (None, st\<lparr>shifts := shifts st @ [new]\<rparr>)"
    using False assms by (simp add: addGuardiaBtn_click_def new_def)
  have "\<exists>s \<in> set (shifts (st\<lparr>shifts := shifts st @ [new]\<rparr>)). shift_id s = idFor date type"
    by (simp add: new_def)
  then have "addGuardiaBtn_click date type (st\<lparr>shifts := shifts st @ [new]\<rparr>)
             = (Some DuplicateShift, st\<lparr>shifts := shifts st @ [new]\<rparr>)"
    using assms unfolding addGuardiaBtn_click_def by (simp only: Let_def if_True if_False simp_thms)
  then show ?thesis using 1 by simp
qed

lemma addNewShift_twice:
  assumes "date \<noteq> []"
  shows "addNewShift date type (snd (addNewShift date type g))
         = (Some DuplicateShift, snd (addNewShift date type g))"
proof (cases "\<exists>s \<in> set (g_shifts g). shift_id s = date @ ''-'' @ toLowerCase type")
  case True
  then have "addNewShift date type g = (Some DuplicateShift, g)"
    using assms by (simp add: addNewShift_def)
  then show ?thesis by simp
next
  case False
  define new where "new = \<lparr>shift_id = date @ ''-'' @ toLowerCase type, shift_date = date, shift_type = type, assigned = []\<rparr>"
  have 1: "addNewShift date type g = (None, g\<lparr>g_shifts := g_shifts g @ [new]\<rparr>)"
    using False assms by (simp add: addNewShift_def new_def)
  have "\<exists>s \<in> set (g_shifts (g\<lparr>g_shifts := g_shifts g @ [new]\<rparr>)). shift_id s = date @ ''-'' @ toLowerCase type"
    by (simp add: new_def)
  then have "addNewShift date type (g\<lparr>g_shifts := g_shifts g @ [new]\<rparr>)
             = (Some DuplicateShift, g\<lparr>g_shifts := g_shifts g @ [new]\<rparr>)"
    using assms unfolding addNewShift_def by (simp only: Let_def if_True if_False simp_thms)
  then show ?thesis using 1 by simp
qed

text \<open>
  Claim C8. Adding a shift whose (date, type) pair is already in the registry is
  refused with \<open>DuplicateShift\<close> and leaves the whole state, hence the registry and
  its size, as it was. This holds for the add button of the clean version and for
  \<^verbatim>\<open>addNewShift\<close> of script.js, on every registry whose ids are the derived ones
  (which the add handlers maintain, see \<open>addGuardia_keeps_derived_ids\<close> and
  \<open>addNewShift_keeps_derived_ids\<close>).
\<close>

theorem C8_duplicate_shift_rejected:
  "(derived_ids (shifts st) \<and> (\<exists>s \<in> set (shifts st). shift_date s = date \<and> shift_type s = type)
      \<longrightarrow> addGuardiaBtn_click date type st = (Some DuplicateShift, st))
   \<and> (derived_ids_script (g_shifts g) \<and> (\<exists>s \<in> set (g_shifts g). shift_date s = date \<and> shift_type s = type)
      \<longrightarrow> addNewShift date type g = (Some DuplicateShift, g))"
  using addGuardia_duplicate addNewShift_duplicate by blast

lemma idFor_ex: "idFor ''2025-09-01'' ''Puerta'' = ''2025-09-01__PUERTA''"
  by code_simp

lemma lower_ex: "toLowerCase ''Puerta'' = ''puerta''"
  by code_simp

text \<open>
  The scenario of the specification: after \<open>2025-09-01\<close>, \<open>Puerta\<close> has been added
  once, adding it again is refused and the registry still has one shift.
\<close>

theorem C8_duplicate_shift_rejected_witness:
  "derived_ids (shifts ex_registry)
   \<and> (\<exists>s \<in> set (shifts ex_registry). shift_date s = ''2025-09-01'' \<and> shift_type s = ''Puerta'')
   \<and> addGuardiaBtn_click ''2025-09-01'' ''Puerta'' ex_registry = (Some DuplicateShift, ex_registry)
   \<and> length (shifts ex_registry) = 1
   \<and> derived_ids_script (g_shifts ex_registry_script)
   \<and> (\<exists>s \<in> set (g_shifts ex_registry_script). shift_date s = ''2025-09-01'' \<and> shift_type s = ''Puerta'')
   \<and> addNewShift ''2025-09-01'' ''Puerta'' ex_registry_script = (Some DuplicateShift, ex_registry_script)
   \<and> length (g_shifts ex_registry_script) = 1"
proof -
  have a: "shifts ex_registry = [\<lparr>shift_id = ''2025-09-01__PUERTA'', shift_date = ''2025-09-01'',
             shift_type = ''Puerta'', assigned = []\<rparr>]"
    by (simp add: ex_registry_def addGuardiaBtn_click_def initial_state_def hydrateResidents_def idFor_ex
          Let_def)
  have b: "g_shifts ex_registry_script = [\<lparr>shift_id = ''2025-09-01-puerta'', shift_date = ''2025-09-01'',
             shift_type = ''Puerta'', assigned = []\<rparr>]"
    by (simp add: ex_registry_script_def addNewShift_def initial_globals_def lower_ex Let_def)
  have c: "derived_ids (shifts ex_registry)"
    unfolding a by (simp add: derived_ids_def idFor_ex)
  have d: "derived_ids_script (g_shifts ex_registry_script)"
    unfolding b by (simp add: derived_ids_script_def lower_ex)
  show ?thesis
    using C8_duplicate_shift_rejected[of ex_registry "''2025-09-01''" "''Puerta''" ex_registry_script] c d
    by (simp add: a b)
qed

section \<open>The pick ledger of the clean version\<close>

lemma set_whoIsAssigned:
  "set (whoIsAssigned st ident) = {r \<in> set (residents st). \<exists>ps. picks st r = Some ps \<and> ident \<in> set ps}"
proof -
  have "(ident \<in> set (picks_or_empty st r)) = (\<exists>ps. picks st r = Some ps \<and> ident \<in> set ps)" for r
    by (cases "picks st r") (simp_all add: picks_or_empty_def)
  then show ?thesis by (auto simp: whoIsAssigned_def)
qed

lemma cb_change_reclaim:
  assumes "picks st name = Some arr" "ident \<in> set arr"
  shows "cb_change name ident True st =
           (if length arr \<ge> slotsPerResident (config st) then Some QuotaExceeded else None, st)"
  using assms by (simp add: cb_change_def)

lemma cb_change_at_quota:
  assumes "picks st name = Some arr" "length arr \<ge> slotsPerResident (config st)"
  shows "cb_change name ident True st = (Some QuotaExceeded, st)"
  using assms by (simp add: cb_change_def)

lemma cb_change_fields:
  "config (snd (cb_change name ident checked st)) = config st"
  "residents (snd (cb_change name ident checked st)) = residents st"
  "shifts (snd (cb_change name ident checked st)) = shifts st"
  by (simp_all add: cb_change_def split: option.splits)

lemma cb_change_picks_other:
  "r \<noteq> name \<Longrightarrow> picks (snd (cb_change name ident checked st)) r = picks st r"
  by (simp add: cb_change_def split: option.splits)

lemma cb_change_picks_length:
  assumes "length (picks_or_empty st name) \<le> slotsPerResident (config st)"
  shows "length (picks_or_empty (snd (cb_change name ident checked st)) name) \<le> slotsPerResident (config st)"
proof (cases "picks st name")
  case None
  then show ?thesis using assms by (simp add: cb_change_def)
next
  case (Some arr)
  have le: "length (filter (\<lambda>x. x \<noteq> ident) arr) \<le> length arr" by simp
  show ?thesis
  proof (cases checked)
    case True
    then show ?thesis using Some assms by (simp add: cb_change_def picks_or_empty_def)
  next
    case False
    have "length arr \<le> slotsPerResident (config st)"
      using Some assms by (simp add: picks_or_empty_def)
    with length_filter_le[of "\<lambda>x. x \<noteq> ident" arr]
    have "length (filter (\<lambda>x. x \<noteq> ident) arr) \<le> slotsPerResident (config st)"
      by (rule order_trans)
    then show ?thesis using False Some by (simp add: cb_change_def picks_or_empty_def)
  qed
qed

lemma cb_change_within_quota:
  assumes "within_quota st"
  shows "within_quota (snd (cb_change name ident checked st))"
proof -
  have "length (picks_or_empty (snd (cb_change name ident checked st)) r) \<le> slotsPerResident (config st)"
    if r: "r \<in> set (residents st)" for r
  proof (cases "r = name")
    case True
    have "length (picks_or_empty st name) \<le> slotsPerResident (config st)"
      using assms r True by (simp add: within_quota_def list_all_iff)
    then show ?thesis using cb_change_picks_length True by simp
  next
    case False
    have "length (picks_or_empty st r) \<le> slotsPerResident (config st)"
      using assms r by (simp add: within_quota_def list_all_iff)
    then show ?thesis using cb_change_picks_other[OF False] by (simp add: picks_or_empty_def)
  qed
  then show ?thesis by (simp add: within_quota_def list_all_iff cb_change_fields)
qed

lemma apply_pick_op_within_quota: "within_quota st \<Longrightarrow> within_quota (apply_pick_op op st)"
  by (cases op) (simp_all add: cb_change_within_quota)

lemma run_pick_ops_within_quota: "within_quota st \<Longrightarrow> within_quota (run_pick_ops ops st)"
  unfolding run_pick_ops_def
  by (induction ops arbitrary: st) (simp_all add: apply_pick_op_within_quota)

lemma apply_pick_op_config: "config (apply_pick_op op st) = config st \<and> residents (apply_pick_op op st) = residents st"
  by (cases op) (simp_all add: cb_change_fields)

lemma run_pick_ops_config:
  "config (run_pick_ops ops st) = config st \<and> residents (run_pick_ops ops st) = residents st"
  unfolding run_pick_ops_def
  by (induction ops arbitrary: st) (simp_all add: apply_pick_op_config)

section \<open>Removing a shift\<close>






section \<open>The fair resolution pass\<close>

lemma remove_losers_ok:
  assumes "\<forall>r \<in> set cs. picks st r \<noteq> None"
  shows "remove_losers ident w cs st =
           (None, st\<lparr>picks := (\<lambda>r. if r \<in> set cs \<and> Some r \<noteq> w
                                    then map_option (filter (\<lambda>i. i \<noteq> ident)) (picks st r)
                                    else picks st r)\<rparr>)"
  using assms
proof (induction cs arbitrary: st)
  case Nil
  then show ?case by simp
next
  case (Cons r rs)
  show ?case
  proof (cases "Some r = w")
    case True
    have p: "\<forall>x \<in> set rs. picks st x \<noteq> None" using Cons.prems by simp
    have eq: "(\<lambda>x. if x \<in> set rs \<and> Some x \<noteq> w then map_option (filter (\<lambda>i. i \<noteq> ident)) (picks st x) else picks st x)
            = (\<lambda>x. if x \<in> set (r # rs) \<and> Some x \<noteq> w then map_option (filter (\<lambda>i. i \<noteq> ident)) (picks st x) else picks st x)"
      using True by (intro ext) auto
    show ?thesis using True Cons.IH[OF p] unfolding eq by simp
  next
    case False
    obtain ps where ps: "picks st r = Some ps" using Cons.prems by auto
    define st1 where "st1 = st\<lparr>picks := (picks st)(r \<mapsto> filter (\<lambda>i. i \<noteq> ident) ps)\<rparr>"
    have p1: "\<forall>x \<in> set rs. picks st1 x \<noteq> None" using Cons.prems by (simp add: st1_def)
    have step: "remove_losers ident w (r # rs) st = remove_losers ident w rs st1"
      using ps False by (simp add: st1_def)
    have eq: "(\<lambda>x. if x \<in> set rs \<and> Some x \<noteq> w then map_option (filter (\<lambda>i. i \<noteq> ident)) (picks st1 x) else picks st1 x)
            = (\<lambda>x. if x \<in> set (r # rs) \<and> Some x \<noteq> w then map_option (filter (\<lambda>i. i \<noteq> ident)) (picks st x) else picks st x)"
      using False by (intro ext) (simp add: st1_def ps)
    have "remove_losers ident w rs st1 =
            (None, st1\<lparr>picks := (\<lambda>x. if x \<in> set rs \<and> Some x \<noteq> w
                                      then map_option (filter (\<lambda>i. i \<noteq> ident)) (picks st1 x)
                                      else picks st1 x)\<rparr>)"
      using Cons.IH[OF p1] .
    also have "\<dots> = (None, st\<lparr>picks := (\<lambda>x. if x \<in> set (r # rs) \<and> Some x \<noteq> w
                                      then map_option (filter (\<lambda>i. i \<noteq> ident)) (picks st x)
                                      else picks st x)\<rparr>)"
      unfolding eq by (simp add: st1_def)
    finally show ?thesis using step by simp
  qed
qed

lemma remove_losers_all_winner:
  "\<forall>r \<in> set cs. r = w \<Longrightarrow> remove_losers ident (Some w) cs st = (None, st)"
  by (induction cs) simp_all

lemma idToResidents_lookup:
  "s \<in> set ss \<Longrightarrow>
   fold (\<lambda>s m. m(shift_id s \<mapsto> f (shift_id s))) ss m0 (shift_id s) = Some (f (shift_id s))"
proof (induction ss arbitrary: m0 rule: rev_induct)
  case Nil
  then show ?case by simp
next
  case (snoc x xs)
  then show ?case by (cases "shift_id x = shift_id s") auto
qed

lemma idToResidents_shift:
  "s \<in> set (shifts st) \<Longrightarrow> idToResidents st (shift_id s) = Some (whoIsAssigned st (shift_id s))"
  unfolding idToResidents_def by (rule idToResidents_lookup)

lemma whoIsAssigned_in_dom: "r \<in> set (whoIsAssigned st ident) \<Longrightarrow> picks st r \<noteq> None"
  by (auto simp: set_whoIsAssigned)

lemma first_of_nonempty: "xs \<noteq> [] \<Longrightarrow> \<exists>w. first_of xs = Some w \<and> w \<in> set xs"
  by (cases xs) (simp_all add: first_of_def)

text \<open>The winner of a contested shift: a contender of least key in the state at hand.\<close>

lemma winner_least:
  assumes "length cs > 1" "js_sort (fair_cmp rnd st) cs n = (ranked, n')"
  shows "\<exists>w. first_of ranked = Some w \<and> w \<in> set cs \<and> (\<forall>c \<in> set cs. lex_le (metric st w) (metric st c))"
proof -
  have "length ranked = length cs" using length_js_sort[of "fair_cmp rnd st" cs n] assms(2) by simp
  then have "ranked \<noteq> []" using assms(1) by auto
  then obtain w where w: "first_of ranked = Some w" using first_of_nonempty by blast
  have "first_of (fst (js_sort (fair_cmp rnd st) cs n)) = Some w" using w assms(2) by simp
  from first_of_js_sort_min[OF fair_cmp_respects this] w show ?thesis by blast
qed

lemma shrunk_None: "shrunk a b \<Longrightarrow> picks a r = None \<Longrightarrow> picks b r = None"
  unfolding shrunk_def by blast

lemma shrunk_Some:
  "shrunk a b \<Longrightarrow> picks a r = Some ps \<Longrightarrow> \<exists>ps'. picks b r = Some ps' \<and> set ps' \<subseteq> set ps"
  unfolding shrunk_def by blast

lemma shrunk_fields:
  "shrunk a b \<Longrightarrow> residents b = residents a \<and> shifts b = shifts a \<and> config b = config a"
  unfolding shrunk_def by blast

lemma shrunkI:
  assumes "residents b = residents a" "shifts b = shifts a" "config b = config a"
    and "\<And>r. picks a r = None \<Longrightarrow> picks b r = None"
    and "\<And>r ps. picks a r = Some ps \<Longrightarrow> \<exists>ps'. picks b r = Some ps' \<and> set ps' \<subseteq> set ps"
  shows "shrunk a b"
  unfolding shrunk_def using assms by blast

lemma shrunk_refl: "shrunk st st"
  by (rule shrunkI) simp_all

lemma shrunk_trans:
  assumes "shrunk a b" "shrunk b c"
  shows "shrunk a c"
proof (rule shrunkI)
  show "residents c = residents a" "shifts c = shifts a" "config c = config a"
    using shrunk_fields[OF assms(1)] shrunk_fields[OF assms(2)] by simp_all
next
  fix r assume "picks a r = None"
  then show "picks c r = None" using shrunk_None[OF assms(1)] shrunk_None[OF assms(2)] by blast
next
  fix r ps assume "picks a r = Some ps"
  then obtain ps1 where 1: "picks b r = Some ps1" "set ps1 \<subseteq> set ps"
    using shrunk_Some[OF assms(1)] by blast
  then obtain ps2 where 2: "picks c r = Some ps2" "set ps2 \<subseteq> set ps1"
    using shrunk_Some[OF assms(2)] by blast
  then show "\<exists>ps'. picks c r = Some ps' \<and> set ps' \<subseteq> set ps" using 1 by blast
qed

lemma shrunk_award: "shrunk st (award ident w cs st)"
proof (rule shrunkI)
  show "residents (award ident w cs st) = residents st" "shifts (award ident w cs st) = shifts st"
    "config (award ident w cs st) = config st" by (simp_all add: award_def)
next
  fix r assume "picks st r = None"
  then show "picks (award ident w cs st) r = None" by (simp add: award_def)
next
  fix r ps assume "picks st r = Some ps"
  then show "\<exists>ps'. picks (award ident w cs st) r = Some ps' \<and> set ps' \<subseteq> set ps"
    by (auto simp: award_def)
qed

lemma whoIsAssigned_shrunk:
  assumes "shrunk st st'"
  shows "set (whoIsAssigned st' ident) \<subseteq> set (whoIsAssigned st ident)"
proof
  fix r assume "r \<in> set (whoIsAssigned st' ident)"
  then obtain ps' where r: "r \<in> set (residents st')" "picks st' r = Some ps'" "ident \<in> set ps'"
    by (auto simp: set_whoIsAssigned)
  have "picks st r \<noteq> None" using shrunk_None[OF assms, of r] r(2) by auto
  then obtain ps where ps: "picks st r = Some ps" by auto
  then obtain q where "picks st' r = Some q" "set q \<subseteq> set ps"
    using shrunk_Some[OF assms] by blast
  then have "ident \<in> set ps" using r by auto
  moreover have "r \<in> set (residents st)" using r(1) shrunk_fields[OF assms] by simp
  ultimately show "r \<in> set (whoIsAssigned st ident)" using ps by (simp add: set_whoIsAssigned)
qed

lemma shrunk_dom: "shrunk st st' \<Longrightarrow> picks st r \<noteq> None \<Longrightarrow> picks st' r \<noteq> None"
  using shrunk_Some by fastforce

lemma whoIsAssigned_award:
  assumes "w \<in> set cs"
  shows "set (whoIsAssigned (award ident w cs st) ident) \<subseteq> insert w (set (whoIsAssigned st ident) - set cs)"
proof
  fix r assume a: "r \<in> set (whoIsAssigned (award ident w cs st) ident)"
  then obtain ps' where r: "r \<in> set (residents st)" "picks (award ident w cs st) r = Some ps'" "ident \<in> set ps'"
    by (auto simp: set_whoIsAssigned award_def)
  show "r \<in> insert w (set (whoIsAssigned st ident) - set cs)"
  proof (cases "r \<in> set cs \<and> r \<noteq> w")
    case True
    then have "picks (award ident w cs st) r = map_option (filter (\<lambda>i. i \<noteq> ident)) (picks st r)"
      by (simp add: award_def)
    then have False using r(2,3) by (cases "picks st r") auto
    then show ?thesis ..
  next
    case False
    have "r \<in> set (whoIsAssigned st ident)"
      using whoIsAssigned_shrunk[OF shrunk_award] a by blast
    then show ?thesis using False by auto
  qed
qed

lemma resolve_loop_skip:
  "m (shift_id s) = Some cs \<Longrightarrow> length cs \<le> 1 \<Longrightarrow>
   resolve_loop rnd m (s # ss) n st = resolve_loop rnd m ss n st"
  by simp

lemma resolve_loop_step:
  assumes "m (shift_id s) = Some cs" "length cs > 1" "\<forall>r \<in> set cs. picks st r \<noteq> None"
  shows "\<exists>w n'. w \<in> set cs \<and> (\<forall>c \<in> set cs. lex_le (metric st w) (metric st c))
           \<and> resolve_loop rnd m (s # ss) n st = resolve_loop rnd m ss n' (award (shift_id s) w cs st)"
proof -
  obtain ranked n' where srt: "js_sort (fair_cmp rnd st) cs n = (ranked, n')"
    by (cases "js_sort (fair_cmp rnd st) cs n")
  from winner_least[OF assms(2) srt]
  obtain w where w: "first_of ranked = Some w" "w \<in> set cs"
    "\<forall>c \<in> set cs. lex_le (metric st w) (metric st c)" by blast
  have eq: "(\<lambda>r. if r \<in> set cs \<and> Some r \<noteq> Some w then map_option (filter (\<lambda>i. i \<noteq> shift_id s)) (picks st r) else picks st r)
          = (\<lambda>r. if r \<in> set cs \<and> r \<noteq> w then map_option (filter (\<lambda>i. i \<noteq> shift_id s)) (picks st r) else picks st r)"
    by (intro ext) simp
  have rl: "remove_losers (shift_id s) (Some w) cs st = (None, award (shift_id s) w cs st)"
    unfolding remove_losers_ok[OF assms(3)] eq award_def by simp
  have "resolve_loop rnd m (s # ss) n st = resolve_loop rnd m ss n' (award (shift_id s) w cs st)"
    using assms(1,2) srt w(1) rl by simp
  then show ?thesis using w(2,3) by blast
qed

lemma resolve_loop_post:
  assumes "shrunk st0 st" "\<forall>s \<in> set ss. m (shift_id s) = Some (whoIsAssigned st0 (shift_id s))"
  shows "\<exists>n' st'. resolve_loop rnd m ss n st = (None, n', st') \<and> shrunk st st'
           \<and> (\<forall>s \<in> set ss. card (set (whoIsAssigned st' (shift_id s))) \<le> 1)"
  using assms
proof (induction ss arbitrary: n st)
  case Nil
  then show ?case by (simp add: shrunk_refl)
next
  case (Cons s ss)
  define cs where "cs = whoIsAssigned st0 (shift_id s)"
  have m: "m (shift_id s) = Some cs" using Cons.prems(2) by (simp add: cs_def)
  have rest: "\<forall>s \<in> set ss. m (shift_id s) = Some (whoIsAssigned st0 (shift_id s))"
    using Cons.prems(2) by simp
  show ?case
  proof (cases "length cs \<le> 1")
    case True
    from Cons.IH[OF Cons.prems(1) rest, of n]
    obtain n' st' where r: "resolve_loop rnd m ss n st = (None, n', st')" "shrunk st st'"
      "\<forall>s \<in> set ss. card (set (whoIsAssigned st' (shift_id s))) \<le> 1" by blast
    have "set (whoIsAssigned st' (shift_id s)) \<subseteq> set cs"
      using whoIsAssigned_shrunk[OF shrunk_trans[OF Cons.prems(1) r(2)]] by (simp add: cs_def)
    then have "card (set (whoIsAssigned st' (shift_id s))) \<le> card (set cs)"
      by (simp add: card_mono)
    also have "\<dots> \<le> length cs" by (rule card_length)
    finally have "card (set (whoIsAssigned st' (shift_id s))) \<le> 1" using True by simp
    moreover have "resolve_loop rnd m (s # ss) n st = resolve_loop rnd m ss n st"
      using m True by simp
    ultimately show ?thesis using r by auto
  next
    case False
    then have len: "length cs > 1" by simp
    have dom0: "\<forall>r \<in> set cs. picks st0 r \<noteq> None" using whoIsAssigned_in_dom by (auto simp: cs_def)
    have dom: "\<forall>r \<in> set cs. picks st r \<noteq> None" using dom0 shrunk_dom[OF Cons.prems(1)] by blast
    from resolve_loop_step[where m=m and s=s and cs=cs and st=st and rnd=rnd and ss=ss and n=n, OF m len dom]
    obtain w n1 where w: "w \<in> set cs"
      and step: "resolve_loop rnd m (s # ss) n st = resolve_loop rnd m ss n1 (award (shift_id s) w cs st)"
      by blast
    define st1 where "st1 = award (shift_id s) w cs st"
    have s1: "shrunk st st1" by (simp add: st1_def shrunk_award)
    have s01: "shrunk st0 st1" using shrunk_trans[OF Cons.prems(1) s1] .
    from Cons.IH[OF s01 rest, of n1]
    obtain n' st' where r: "resolve_loop rnd m ss n1 st1 = (None, n', st')" "shrunk st1 st'"
      "\<forall>s \<in> set ss. card (set (whoIsAssigned st' (shift_id s))) \<le> 1" by blast
    have "set (whoIsAssigned st (shift_id s)) \<subseteq> set cs"
      using whoIsAssigned_shrunk[OF Cons.prems(1)] by (simp add: cs_def)
    then have "set (whoIsAssigned st1 (shift_id s)) \<subseteq> {w}"
      using whoIsAssigned_award[OF w, of "shift_id s" st] by (auto simp: st1_def)
    then have "set (whoIsAssigned st' (shift_id s)) \<subseteq> {w}"
      using whoIsAssigned_shrunk[OF r(2), of "shift_id s"] by blast
    then have "card (set (whoIsAssigned st' (shift_id s))) \<le> card {w}"
      by (intro card_mono) simp_all
    then have c: "card (set (whoIsAssigned st' (shift_id s))) \<le> 1" by simp
    have "resolve_loop rnd m (s # ss) n st = (None, n', st')" using step r(1) by (simp add: st1_def)
    moreover have "shrunk st st'" using shrunk_trans[OF s1 r(2)] .
    ultimately show ?thesis using c r(3) by auto
  qed
qed

lemma resolveConflictsFair_post:
  "\<exists>n' st'. resolveConflictsFair rnd n st = (None, n', st') \<and> shrunk st st'
     \<and> (\<forall>s \<in> set (shifts st). card (set (whoIsAssigned st' (shift_id s))) \<le> 1)"
  unfolding resolveConflictsFair_def
  by (rule resolve_loop_post[OF shrunk_refl]) (simp add: idToResidents_shift)

lemma resolve_loop_noop:
  assumes "\<forall>s \<in> set ss. m (shift_id s) = Some (whoIsAssigned st (shift_id s))"
    and "\<forall>s \<in> set ss. card (set (whoIsAssigned st (shift_id s))) \<le> 1"
  shows "\<exists>n'. resolve_loop rnd m ss n st = (None, n', st)"
  using assms
proof (induction ss arbitrary: n)
  case Nil
  then show ?case by simp
next
  case (Cons s ss)
  define cs where "cs = whoIsAssigned st (shift_id s)"
  have m: "m (shift_id s) = Some cs" using Cons.prems(1) by (simp add: cs_def)
  have one: "card (set cs) \<le> 1" using Cons.prems(2) by (simp add: cs_def)
  have ih: "\<exists>n'. resolve_loop rnd m ss k st = (None, n', st)" for k
    using Cons.IH[of k] Cons.prems by simp
  show ?case
  proof (cases "length cs \<le> 1")
    case True
    then show ?thesis using ih[of n] m by simp
  next
    case False
    then have len: "length cs > 1" by simp
    obtain ranked n1 where srt: "js_sort (fair_cmp rnd st) cs n = (ranked, n1)"
      by (cases "js_sort (fair_cmp rnd st) cs n")
    from winner_least[OF len srt] obtain w where w: "first_of ranked = Some w" "w \<in> set cs" by blast
    have "\<forall>a \<in> set cs. \<forall>b \<in> set cs. a = b"
      using one card_le_Suc0_iff_eq[of "set cs"] by simp
    then have "\<forall>r \<in> set cs. r = w" using w(2) by blast
    then have rl: "remove_losers (shift_id s) (Some w) cs st = (None, st)"
      by (rule remove_losers_all_winner)
    have "resolve_loop rnd m (s # ss) n st = resolve_loop rnd m ss n1 st"
      using m len srt w(1) rl by simp
    then show ?thesis using ih[of n1] by simp
  qed
qed

lemma resolveConflictsFair_noop:
  assumes "\<forall>s \<in> set (shifts st). card (set (whoIsAssigned st (shift_id s))) \<le> 1"
  shows "\<exists>n'. resolveConflictsFair rnd n st = (None, n', st)"
  unfolding resolveConflictsFair_def
  using assms by (intro resolve_loop_noop) (simp_all add: idToResidents_shift)

section \<open>The resolution pass of script.js\<close>

lemma computeMonFriCount_Inr:
  assumes "userPicks g u = Some ps"
  shows "\<exists>k. computeMonFriCount hostDay g u = Inr k \<and> key_monfri_first hostDay g u = (k, length ps)"
  using assms by (simp add: computeMonFriCount_def key_monfri_first_def)

lemma choose_resident_None:
  "choose_resident hostDay rnd g (res # rest) None n = choose_resident hostDay rnd g rest (Some res) n"
  by simp

lemma choose_resident_empty_name:
  "choose_resident hostDay rnd g (res # rest) (Some []) n = choose_resident hostDay rnd g rest (Some res) n"
  by simp

lemma choose_resident_compare:
  assumes "userPicks g res = Some pr" "userPicks g c = Some pc" "c \<noteq> []"
    and "key_monfri_first hostDay g res = (a, length pr)" "key_monfri_first hostDay g c = (b, length pc)"
  shows "choose_resident hostDay rnd g (res # rest) (Some c) n =
           (if a < b then choose_resident hostDay rnd g rest (Some res) n
            else if a = b then
              (if length pr < length pc then choose_resident hostDay rnd g rest (Some res) n
               else if length pr = length pc then
                 (if rnd n < 1 / 2 then choose_resident hostDay rnd g rest (Some res) (Suc n)
                  else choose_resident hostDay rnd g rest (Some c) (Suc n))
               else choose_resident hostDay rnd g rest (Some c) n)
            else choose_resident hostDay rnd g rest (Some c) n)"
proof -
  have A: "computeMonFriCount hostDay g res = Inr a"
    using computeMonFriCount_Inr[OF assms(1), of hostDay] assms(4) by auto
  have B: "computeMonFriCount hostDay g c = Inr b"
    using computeMonFriCount_Inr[OF assms(2), of hostDay] assms(5) by auto
  show ?thesis using assms(1,2,3) A B by simp
qed

lemma chosen_ok_replace:
  assumes "chosen_ok hostDay g rest (Some res) x"
    and "chosen \<noteq> Some [] \<Longrightarrow> \<forall>c. chosen = Some c \<longrightarrow> lex_le (key_monfri_first hostDay g res) (key_monfri_first hostDay g c)"
  shows "chosen_ok hostDay g (res # rest) chosen x"
  using assms unfolding chosen_ok_def by (auto intro: lex_le_trans)

lemma chosen_ok_keep:
  assumes "chosen_ok hostDay g rest (Some c) x"
    and "lex_le (key_monfri_first hostDay g c) (key_monfri_first hostDay g res)"
  shows "chosen_ok hostDay g (res # rest) (Some c) x"
  using assms unfolding chosen_ok_def by (auto intro: lex_le_trans)

lemma choose_resident_ok:
  assumes "\<forall>u \<in> set rs. userPicks g u \<noteq> None"
    and "\<forall>c. chosen = Some c \<longrightarrow> userPicks g c \<noteq> None"
    and "rs \<noteq> [] \<or> chosen \<noteq> None"
  shows "\<exists>x n'. choose_resident hostDay rnd g rs chosen n = Inr (Some x, n') \<and> n \<le> n'
           \<and> chosen_ok hostDay g rs chosen x"
  using assms
proof (induction rs arbitrary: chosen n)
  case Nil
  then obtain c where "chosen = Some c" by auto
  then show ?case by (simp add: chosen_ok_def lex_le_refl)
next
  case (Cons res rest)
  obtain pr where pr: "userPicks g res = Some pr" using Cons.prems(1) by auto
  have rest: "\<forall>u \<in> set rest. userPicks g u \<noteq> None" using Cons.prems(1) by simp
  have ih_res: "\<exists>x n'. choose_resident hostDay rnd g rest (Some res) k = Inr (Some x, n') \<and> k \<le> n'
           \<and> chosen_ok hostDay g rest (Some res) x" for k
    using Cons.IH[OF rest, of "Some res" k] pr by simp
  show ?case
  proof (cases chosen)
    case None
    from ih_res[of n] obtain x n' where x: "choose_resident hostDay rnd g rest (Some res) n = Inr (Some x, n')"
      "n \<le> n'" "chosen_ok hostDay g rest (Some res) x" by blast
    have "chosen_ok hostDay g (res # rest) chosen x"
      using chosen_ok_replace[OF x(3), of chosen] None by simp
    then show ?thesis using x None by simp
  next
    case (Some c)
    show ?thesis
    proof (cases "c = []")
      case True
      from ih_res[of n] obtain x n' where x: "choose_resident hostDay rnd g rest (Some res) n = Inr (Some x, n')"
        "n \<le> n'" "chosen_ok hostDay g rest (Some res) x" by blast
      have "chosen_ok hostDay g (res # rest) chosen x"
        using chosen_ok_replace[OF x(3), of chosen] Some True by simp
      then show ?thesis using x Some True by simp
    next
      case False
      obtain pc where pc: "userPicks g c = Some pc" using Cons.prems(2) Some by auto
      obtain a where a: "key_monfri_first hostDay g res = (a, length pr)"
        using computeMonFriCount_Inr[OF pr, of hostDay] by auto
      obtain b where b: "key_monfri_first hostDay g c = (b, length pc)"
        using computeMonFriCount_Inr[OF pc, of hostDay] by auto
      note cmp = choose_resident_compare[OF pr pc False a b, of rnd rest n]
      have ih_c: "\<exists>x n'. choose_resident hostDay rnd g rest (Some c) k = Inr (Some x, n') \<and> k \<le> n'
           \<and> chosen_ok hostDay g rest (Some c) x" for k
        using Cons.IH[OF rest, of "Some c" k] pc by simp
      consider (res_wins) "a < b \<or> (a = b \<and> length pr < length pc)"
        | (tie) "a = b" "length pr = length pc"
        | (c_wins) "b < a \<or> (a = b \<and> length pc < length pr)"
        by linarith
      then show ?thesis
      proof cases
        case res_wins
        then have le: "lex_le (key_monfri_first hostDay g res) (key_monfri_first hostDay g c)"
          by (auto simp: a b lex_le_def)
        from ih_res[of n] obtain x n' where x: "choose_resident hostDay rnd g rest (Some res) n = Inr (Some x, n')"
          "n \<le> n'" "chosen_ok hostDay g rest (Some res) x" by blast
        have "chosen_ok hostDay g (res # rest) chosen x"
          using chosen_ok_replace[OF x(3), of chosen] le Some by simp
        moreover have "choose_resident hostDay rnd g (res # rest) chosen n = Inr (Some x, n')"
          using cmp res_wins x(1) Some by auto
        ultimately show ?thesis using x(2) by blast
      next
        case tie
        then have le1: "lex_le (key_monfri_first hostDay g res) (key_monfri_first hostDay g c)"
          and le2: "lex_le (key_monfri_first hostDay g c) (key_monfri_first hostDay g res)"
          by (auto simp: a b lex_le_def)
        show ?thesis
        proof (cases "rnd n < 1 / 2")
          case True
          from ih_res[of "Suc n"] obtain x n' where x: "choose_resident hostDay rnd g rest (Some res) (Suc n) = Inr (Some x, n')"
            "Suc n \<le> n'" "chosen_ok hostDay g rest (Some res) x" by blast
          have "chosen_ok hostDay g (res # rest) chosen x"
            using chosen_ok_replace[OF x(3), of chosen] le1 Some by simp
          moreover have "choose_resident hostDay rnd g (res # rest) chosen n = Inr (Some x, n')"
            using cmp tie True x(1) Some by auto
          ultimately show ?thesis using x(2) by (meson Suc_leD)
        next
          case False
          from ih_c[of "Suc n"] obtain x n' where x: "choose_resident hostDay rnd g rest (Some c) (Suc n) = Inr (Some x, n')"
            "Suc n \<le> n'" "chosen_ok hostDay g rest (Some c) x" by blast
          have "chosen_ok hostDay g (res # rest) chosen x"
            using chosen_ok_keep[OF x(3) le2] Some by simp
          moreover have "choose_resident hostDay rnd g (res # rest) chosen n = Inr (Some x, n')"
            using cmp tie False x(1) Some by auto
          ultimately show ?thesis using x(2) by (meson Suc_leD)
        qed
      next
        case c_wins
        then have le: "lex_le (key_monfri_first hostDay g c) (key_monfri_first hostDay g res)"
          by (auto simp: a b lex_le_def)
        from ih_c[of n] obtain x n' where x: "choose_resident hostDay rnd g rest (Some c) n = Inr (Some x, n')"
          "n \<le> n'" "chosen_ok hostDay g rest (Some c) x" by blast
        have "chosen_ok hostDay g (res # rest) chosen x"
          using chosen_ok_keep[OF x(3) le] Some by simp
        moreover have "choose_resident hostDay rnd g (res # rest) chosen n = Inr (Some x, n')"
          using cmp c_wins x(1) Some by auto
        ultimately show ?thesis using x(2) by blast
      qed
    qed
  qed
qed

lemma resolved_from_facts:
  assumes "resolved_from hostDay g s s'"
  shows "shift_id s' = shift_id s" "shift_date s' = shift_date s" "shift_type s' = shift_type s"
    "length (assigned s') \<le> 1" "set (assigned s') \<subseteq> set (assigned s)"
    "length (assigned s) \<le> 1 \<Longrightarrow> s' = s"
proof -
  show "length (assigned s) \<le> 1 \<Longrightarrow> s' = s" using assms by (simp add: resolved_from_def)
  show "shift_id s' = shift_id s" using assms by (auto simp: resolved_from_def split: if_splits)
  show "shift_date s' = shift_date s" using assms by (auto simp: resolved_from_def split: if_splits)
  show "shift_type s' = shift_type s" using assms by (auto simp: resolved_from_def split: if_splits)
  show "length (assigned s') \<le> 1" using assms by (auto simp: resolved_from_def split: if_splits)
  show "set (assigned s') \<subseteq> set (assigned s)" using assms by (auto simp: resolved_from_def split: if_splits)
qed

lemma resolve_shifts_ok:
  assumes "\<forall>s \<in> set ss. \<forall>u \<in> set (assigned s). userPicks g u \<noteq> None"
  shows "\<exists>n' ss'. resolve_shifts hostDay rnd g ss n = (None, n', ss') \<and> n \<le> n'
           \<and> list_all2 (resolved_from hostDay g) ss ss'"
  using assms
proof (induction ss arbitrary: n)
  case Nil
  then show ?case by simp
next
  case (Cons s ss)
  have ih: "\<exists>n' ss'. resolve_shifts hostDay rnd g ss k = (None, n', ss') \<and> k \<le> n'
           \<and> list_all2 (resolved_from hostDay g) ss ss'" for k
    using Cons.IH[of k] Cons.prems by simp
  show ?case
  proof (cases "length (assigned s) \<le> 1")
    case True
    from ih[of n] obtain n' ss' where r: "resolve_shifts hostDay rnd g ss n = (None, n', ss')" "n \<le> n'"
      "list_all2 (resolved_from hostDay g) ss ss'" by blast
    have "resolved_from hostDay g s s" using True by (simp add: resolved_from_def)
    then show ?thesis using True r by simp
  next
    case False
    then have ne: "assigned s \<noteq> []" by auto
    have dom: "\<forall>u \<in> set (assigned s). userPicks g u \<noteq> None" using Cons.prems by simp
    from choose_resident_ok[OF dom, of None hostDay rnd n] ne
    obtain x n1 where x: "choose_resident hostDay rnd g (assigned s) None n = Inr (Some x, n1)" "n \<le> n1"
      "chosen_ok hostDay g (assigned s) None x" by auto
    from ih[of n1] obtain n' ss' where r: "resolve_shifts hostDay rnd g ss n1 = (None, n', ss')" "n1 \<le> n'"
      "list_all2 (resolved_from hostDay g) ss ss'" by blast
    have rf: "resolved_from hostDay g s (s\<lparr>assigned := [x]\<rparr>)"
      using False x(3) by (auto simp: resolved_from_def chosen_ok_def)
    have "resolve_shifts hostDay rnd g (s # ss) n = (None, n', s\<lparr>assigned := [x]\<rparr> # ss')"
      using False x(1) r(1) by simp
    then show ?thesis using rf r(2,3) x(2) by auto
  qed
qed

lemma resolve_shifts_unchanged:
  "\<forall>s \<in> set ss. length (assigned s) \<le> 1 \<Longrightarrow> resolve_shifts hostDay rnd g ss n = (None, n, ss)"
  by (induction ss arbitrary: n) simp_all

lemma reset_fold: "fold (\<lambda>u m. m(u \<mapsto> [])) us up = (\<lambda>u. if u \<in> set us then Some [] else up u)"
proof (induction us arbitrary: up)
  case Nil
  then show ?case by simp
next
  case (Cons a us)
  show ?case unfolding fold_simps Cons.IH by (intro ext) simp
qed

lemma push_assigned_ok:
  assumes "distinct us" "\<forall>u \<in> set us. up u \<noteq> None"
  shows "push_assigned ident us up =
           (None, \<lambda>u. if u \<in> set us then map_option (\<lambda>ps. ps @ [ident]) (up u) else up u)"
  using assms
proof (induction us arbitrary: up)
  case Nil
  then show ?case by simp
next
  case (Cons a us)
  obtain ps where ps: "up a = Some ps" using Cons.prems(2) by auto
  have d: "distinct us" "a \<notin> set us" using Cons.prems(1) by simp_all
  have dom: "\<forall>u \<in> set us. (up(a \<mapsto> ps @ [ident])) u \<noteq> None" using Cons.prems(2) by simp
  have eq: "(\<lambda>u. if u \<in> set us then map_option (\<lambda>ps. ps @ [ident]) ((up(a \<mapsto> ps @ [ident])) u)
                 else (up(a \<mapsto> ps @ [ident])) u)
          = (\<lambda>u. if u \<in> set (a # us) then map_option (\<lambda>ps. ps @ [ident]) (up u) else up u)"
    using d(2) ps by (intro ext) auto
  have "push_assigned ident (a # us) up = push_assigned ident us (up(a \<mapsto> ps @ [ident]))"
    using ps by simp
  also have "\<dots> = (None, \<lambda>u. if u \<in> set us then map_option (\<lambda>ps. ps @ [ident]) ((up(a \<mapsto> ps @ [ident])) u)
                 else (up(a \<mapsto> ps @ [ident])) u)"
    by (rule Cons.IH[OF d(1) dom])
  also have "\<dots> = (None, \<lambda>u. if u \<in> set (a # us) then map_option (\<lambda>ps. ps @ [ident]) (up u) else up u)"
    by (simp only: eq)
  finally show ?case .
qed

lemma rebuild_picks_ok:
  assumes "\<forall>s \<in> set ss. distinct (assigned s) \<and> (\<forall>u \<in> set (assigned s). up u \<noteq> None)"
  shows "rebuild_picks ss up =
           (None, \<lambda>u. map_option (\<lambda>ps. ps @ map shift_id (filter (\<lambda>s. u \<in> set (assigned s)) ss)) (up u))"
  using assms
proof (induction ss arbitrary: up)
  case Nil
  show ?case by (simp add: option.map_ident)
next
  case (Cons s ss)
  define up1 where "up1 = (\<lambda>u. if u \<in> set (assigned s) then map_option (\<lambda>ps. ps @ [shift_id s]) (up u) else up u)"
  have p: "push_assigned (shift_id s) (assigned s) up = (None, up1)"
    unfolding up1_def using Cons.prems by (intro push_assigned_ok) simp_all
  have dom1: "\<forall>t \<in> set ss. distinct (assigned t) \<and> (\<forall>u \<in> set (assigned t). up1 u \<noteq> None)"
    using Cons.prems by (auto simp: up1_def)
  have eq: "(\<lambda>u. map_option (\<lambda>ps. ps @ map shift_id (filter (\<lambda>s. u \<in> set (assigned s)) ss)) (up1 u))
          = (\<lambda>u. map_option (\<lambda>ps. ps @ map shift_id (filter (\<lambda>t. u \<in> set (assigned t)) (s # ss))) (up u))"
  proof (rule ext)
    fix u
    show "map_option (\<lambda>ps. ps @ map shift_id (filter (\<lambda>s. u \<in> set (assigned s)) ss)) (up1 u)
        = map_option (\<lambda>ps. ps @ map shift_id (filter (\<lambda>t. u \<in> set (assigned t)) (s # ss))) (up u)"
      by (cases "up u") (simp_all add: up1_def)
  qed
  have "rebuild_picks (s # ss) up = rebuild_picks ss up1" using p by simp
  also have "\<dots> = (None, \<lambda>u. map_option (\<lambda>ps. ps @ map shift_id (filter (\<lambda>s. u \<in> set (assigned s)) ss)) (up1 u))"
    by (rule Cons.IH[OF dom1])
  also have "\<dots> = (None, \<lambda>u. map_option (\<lambda>ps. ps @ map shift_id (filter (\<lambda>t. u \<in> set (assigned t)) (s # ss))) (up u))"
    by (simp only: eq)
  finally show ?case .
qed

lemma list_all2_resolved_props:
  assumes "list_all2 (resolved_from hostDay g) ss ss'"
  shows "map shift_id ss' = map shift_id ss"
    and "\<forall>s' \<in> set ss'. length (assigned s') \<le> 1"
    and "\<forall>s' \<in> set ss'. \<exists>s \<in> set ss. shift_id s' = shift_id s \<and> set (assigned s') \<subseteq> set (assigned s)"
  using assms
proof (induction ss ss' rule: list_all2_induct)
  case Nil
  { case 1 show ?case by simp }
  { case 2 show ?case by simp }
  { case 3 show ?case by simp }
next
  case (Cons s ss s' ss')
  { case 1 show ?case using Cons resolved_from_facts(1)[OF Cons.hyps(1)] by simp }
  { case 2 show ?case using Cons resolved_from_facts(4)[OF Cons.hyps(1)] by simp }
  { case 3 show ?case using Cons resolved_from_facts(1,5)[OF Cons.hyps(1)] by auto }
qed

text \<open>The whole pass, when every assigned name has a pick array.\<close>

lemma resolveConflicts_ok:
  assumes "\<forall>s \<in> set (g_shifts g). \<forall>u \<in> set (assigned s). userPicks g u \<noteq> None"
  shows "\<exists>n' ss'. n \<le> n' \<and> list_all2 (resolved_from hostDay g) (g_shifts g) ss' \<and>
           resolveConflicts hostDay rnd n g =
             (None, n', g\<lparr>g_shifts := ss',
                          userPicks := (\<lambda>u. map_option (\<lambda>ps. ps @ map shift_id (filter (\<lambda>s. u \<in> set (assigned s)) ss'))
                                               (if u \<in> set users then Some [] else userPicks g u))\<rparr>)"
proof -
  from resolve_shifts_ok[OF assms, of hostDay rnd n]
  obtain n' ss' where r: "resolve_shifts hostDay rnd g (g_shifts g) n = (None, n', ss')" "n \<le> n'"
    "list_all2 (resolved_from hostDay g) (g_shifts g) ss'" by blast
  define up0 where "up0 = (\<lambda>u. if u \<in> set users then Some [] else userPicks g u)"
  have up0: "fold (\<lambda>u m. m(u \<mapsto> [])) users (userPicks g) = up0"
    by (simp add: reset_fold up0_def)
  have "\<forall>s' \<in> set ss'. distinct (assigned s') \<and> (\<forall>u \<in> set (assigned s'). up0 u \<noteq> None)"
  proof
    fix s' assume s': "s' \<in> set ss'"
    have "length (assigned s') \<le> 1" using list_all2_resolved_props(2)[OF r(3)] s' by blast
    then have d: "distinct (assigned s')" by (cases "assigned s'") auto
    obtain s where s: "s \<in> set (g_shifts g)" "set (assigned s') \<subseteq> set (assigned s)"
      using list_all2_resolved_props(3)[OF r(3)] s' by blast
    have "\<forall>u \<in> set (assigned s'). up0 u \<noteq> None" using s assms by (auto simp: up0_def)
    then show "distinct (assigned s') \<and> (\<forall>u \<in> set (assigned s'). up0 u \<noteq> None)" using d by simp
  qed
  from rebuild_picks_ok[OF this]
  have rb: "rebuild_picks ss' up0 =
      (None, \<lambda>u. map_option (\<lambda>ps. ps @ map shift_id (filter (\<lambda>s. u \<in> set (assigned s)) ss')) (up0 u))" .
  have "resolveConflicts hostDay rnd n g =
             (None, n', g\<lparr>g_shifts := ss',
                          userPicks := (\<lambda>u. map_option (\<lambda>ps. ps @ map shift_id (filter (\<lambda>s. u \<in> set (assigned s)) ss'))
                                               (up0 u))\<rparr>)"
    unfolding resolveConflicts_def r(1) up0 by (simp add: rb)
  then show ?thesis using r(2,3) unfolding up0_def by blast
qed

section \<open>After a resolution pass\<close>

text \<open>
  Claim C2. After \<^verbatim>\<open>resolveConflictsFair\<close>, which always completes, every shift of
  the registry has at most one claimant among the residents. After
  \<^verbatim>\<open>resolveConflicts\<close> of script.js, which completes when every assigned name has a
  pick array, every shift has at most one assigned resident.
\<close>

theorem C2_at_most_one_claimant:
  "fst (resolveConflictsFair rnd n st) = None
   \<and> shifts (snd (snd (resolveConflictsFair rnd n st))) = shifts st
   \<and> (\<forall>s \<in> set (shifts st).
         card (set (whoIsAssigned (snd (snd (resolveConflictsFair rnd n st))) (shift_id s))) \<le> 1)
   \<and> ((\<forall>s \<in> set (g_shifts g). \<forall>u \<in> set (assigned s). userPicks g u \<noteq> None) \<longrightarrow>
        fst (resolveConflicts hostDay rnd n g) = None
      \<and> (\<forall>s \<in> set (g_shifts (snd (snd (resolveConflicts hostDay rnd n g)))). length (assigned s) \<le> 1))"
proof -
  obtain n' st' where p: "resolveConflictsFair rnd n st = (None, n', st')" "shrunk st st'"
    "\<forall>s \<in> set (shifts st). card (set (whoIsAssigned st' (shift_id s))) \<le> 1"
    using resolveConflictsFair_post[of rnd n st] by blast
  have 1: "fst (resolveConflictsFair rnd n st) = None
   \<and> shifts (snd (snd (resolveConflictsFair rnd n st))) = shifts st
   \<and> (\<forall>s \<in> set (shifts st).
         card (set (whoIsAssigned (snd (snd (resolveConflictsFair rnd n st))) (shift_id s))) \<le> 1)"
    using p shrunk_fields[OF p(2)] by simp
  have 2: "fst (resolveConflicts hostDay rnd n g) = None
      \<and> (\<forall>s \<in> set (g_shifts (snd (snd (resolveConflicts hostDay rnd n g)))). length (assigned s) \<le> 1)"
    if h: "\<forall>s \<in> set (g_shifts g). \<forall>u \<in> set (assigned s). userPicks g u \<noteq> None"
  proof -
    from resolveConflicts_ok[OF h, of n hostDay rnd]
    obtain k ss' where r: "list_all2 (resolved_from hostDay g) (g_shifts g) ss'"
      "resolveConflicts hostDay rnd n g =
             (None, k, g\<lparr>g_shifts := ss',
                          userPicks := (\<lambda>u. map_option (\<lambda>ps. ps @ map shift_id (filter (\<lambda>s. u \<in> set (assigned s)) ss'))
                                               (if u \<in> set users then Some [] else userPicks g u))\<rparr>)"
      by blast
    show ?thesis using list_all2_resolved_props(2)[OF r(1)] by (simp add: r(2))
  qed
  show ?thesis using 1 2 by blast
qed

lemma ex_state_S1: "ex_shift ''S1'' ''2025-09-01'' \<in> set (shifts ex_state)"
  by (simp add: ex_state_def)

lemma ex_state_contested: "whoIsAssigned ex_state ''S1'' = [''Resident 1'', ''Resident 2'']"
  by code_simp

lemma ex_globals_arrays: "\<forall>s \<in> set (g_shifts ex_globals). \<forall>u \<in> set (assigned s). userPicks ex_globals u \<noteq> None"
  by (simp add: ex_globals_def ex_assigned_def)

lemma ex_globals_resolved:
  "map assigned (g_shifts (snd (snd (resolveConflicts (\<lambda>_. None) (\<lambda>_. 0) 0 ex_globals))))
     = [[''Resident 1''], [''Resident 2''], [''Resident 2'']]"
  by code_simp

text \<open>
  The scenario: \<open>S1\<close> has two claimants before the pass and at most one after it,
  in both variants.
\<close>

theorem C2_at_most_one_claimant_witness:
  "whoIsAssigned ex_state ''S1'' = [''Resident 1'', ''Resident 2'']
   \<and> ex_shift ''S1'' ''2025-09-01'' \<in> set (shifts ex_state)
   \<and> card (set (whoIsAssigned (snd (snd (resolveConflictsFair (\<lambda>_. 0) 0 ex_state))) ''S1'')) \<le> 1
   \<and> list_all (\<lambda>s. list_all (\<lambda>u. userPicks ex_globals u \<noteq> None) (assigned s)) (g_shifts ex_globals)
   \<and> g_shifts (snd (snd (resolveConflicts (\<lambda>_. None) (\<lambda>_. 0) 0 ex_globals))) \<noteq> []
   \<and> list_all (\<lambda>s. length (assigned s) \<le> 1)
        (g_shifts (snd (snd (resolveConflicts (\<lambda>_. None) (\<lambda>_. 0) 0 ex_globals))))"
proof -
  have ne: "g_shifts (snd (snd (resolveConflicts (\<lambda>_. None) (\<lambda>_. 0) 0 ex_globals))) \<noteq> []"
    using ex_globals_resolved by auto
  have i: "shift_id (ex_shift ''S1'' ''2025-09-01'') = ''S1''" by (simp add: ex_shift_def)
  note T = C2_at_most_one_claimant[of "\<lambda>_. 0" 0 ex_state ex_globals "\<lambda>_. None"]
  have a: "card (set (whoIsAssigned (snd (snd (resolveConflictsFair (\<lambda>_. 0) 0 ex_state))) ''S1'')) \<le> 1"
    using T ex_state_S1 i by metis
  have b: "\<forall>s \<in> set (g_shifts (snd (snd (resolveConflicts (\<lambda>_. None) (\<lambda>_. 0) 0 ex_globals)))).
         length (assigned s) \<le> 1"
    using T ex_globals_arrays by blast
  show ?thesis
    using a b ne ex_state_S1 ex_state_contested ex_globals_arrays by (simp add: list_all_iff)
qed

section \<open>Well-formed globals of script.js\<close>

lemma update_first_map:
  "distinct (map shift_id ss) \<Longrightarrow>
   update_first i f ss = map (\<lambda>s. if shift_id s = i then f s else s) ss"
proof (induction ss)
  case Nil
  then show ?case by simp
next
  case (Cons s ss)
  show ?case
  proof (cases "shift_id s = i")
    case True
    have "shift_id s \<notin> shift_id ` set ss" using Cons.prems by simp
    then have "\<forall>t \<in> set ss. shift_id t \<noteq> i" using True by blast
    then have "map (\<lambda>s. if shift_id s = i then f s else s) ss = ss"
      by (induction ss) auto
    then show ?thesis using True by simp
  next
    case False
    then show ?thesis using Cons by simp
  qed
qed

lemma find_Some_mem: "find P xs = Some x \<Longrightarrow> x \<in> set xs \<and> P x"
  by (induction xs) (auto split: if_splits)

lemma find_None_iff_not: "find P xs = None \<Longrightarrow> \<forall>x \<in> set xs. \<not> P x"
  by (induction xs) (auto split: if_splits)

lemma ledger_okD:
  assumes "ledger_ok g"
  shows "distinct (map shift_id (g_shifts g))"
    and "dom (userPicks g) = set users"
    and "\<And>u ps. userPicks g u = Some ps \<Longrightarrow>
           distinct ps \<and> length ps \<le> maxShiftsPerUser \<and> set ps \<subseteq> shift_id ` set (g_shifts g)"
    and "\<And>s u. s \<in> set (g_shifts g) \<Longrightarrow>
           (u \<in> set (assigned s)) = (\<exists>ps. userPicks g u = Some ps \<and> shift_id s \<in> set ps)"
  using assms unfolding ledger_ok_def by blast+

lemma ledger_okI:
  assumes "distinct (map shift_id (g_shifts g))"
    and "dom (userPicks g) = set users"
    and "\<And>u ps. userPicks g u = Some ps \<Longrightarrow>
           distinct ps \<and> length ps \<le> maxShiftsPerUser \<and> set ps \<subseteq> shift_id ` set (g_shifts g)"
    and "\<And>s u. s \<in> set (g_shifts g) \<Longrightarrow>
           (u \<in> set (assigned s)) = (\<exists>ps. userPicks g u = Some ps \<and> shift_id s \<in> set ps)"
  shows "ledger_ok g"
  unfolding ledger_ok_def using assms by blast

lemma ledger_ok_initial: "ledger_ok initial_globals"
proof (rule ledger_okI)
  show "distinct (map shift_id (g_shifts initial_globals))" by (simp add: initial_globals_def)
  show "dom (userPicks initial_globals) = set users"
    by (auto simp: initial_globals_def reset_fold split: if_splits)
next
  fix u ps assume "userPicks initial_globals u = Some ps"
  then have "ps = []" by (auto simp: initial_globals_def reset_fold split: if_splits)
  then show "distinct ps \<and> length ps \<le> maxShiftsPerUser \<and> set ps \<subseteq> shift_id ` set (g_shifts initial_globals)"
    by simp
next
  fix s u assume "s \<in> set (g_shifts initial_globals)"
  then show "(u \<in> set (assigned s)) = (\<exists>ps. userPicks initial_globals u = Some ps \<and> shift_id s \<in> set ps)"
    by (simp add: initial_globals_def)
qed

lemma ledger_ok_currentUser: "ledger_ok (g\<lparr>currentUser := c\<rparr>) = ledger_ok g"
  by (simp add: ledger_ok_def)

lemma ledger_ok_finishedUsers: "ledger_ok (g\<lparr>finishedUsers := f\<rparr>) = ledger_ok g"
  by (simp add: ledger_ok_def)

lemma ledger_ok_startBtn: "ledger_ok g \<Longrightarrow> ledger_ok (snd (startBtn_click name g))"
  by (simp add: startBtn_click_def ledger_ok_currentUser)

lemma ledger_ok_backBtn: "ledger_ok g \<Longrightarrow> ledger_ok (snd (backBtn_click g))"
  by (simp add: backBtn_click_def ledger_ok_currentUser)

lemma ledger_ok_finish: "ledger_ok g \<Longrightarrow> ledger_ok (snd (finishSelection g))"
  by (simp add: finishSelection_def ledger_ok_finishedUsers split: option.splits)

lemma ledger_ok_addNewShift:
  assumes "ledger_ok g"
  shows "ledger_ok (snd (addNewShift date type g))"
proof (cases "fst (addNewShift date type g) = None")
  case False
  then have "snd (addNewShift date type g) = g"
    by (auto simp: addNewShift_def Let_def split: if_splits)
  then show ?thesis using assms by simp
next
  case True
  define new where "new = \<lparr>shift_id = date @ ''-'' @ toLowerCase type, shift_date = date, shift_type = type, assigned = []\<rparr>"
  have fresh: "\<forall>s \<in> set (g_shifts g). shift_id s \<noteq> shift_id new"
    using True by (auto simp: addNewShift_def Let_def new_def split: if_splits)
  have g': "snd (addNewShift date type g) = g\<lparr>g_shifts := g_shifts g @ [new]\<rparr>"
    using True by (auto simp: addNewShift_def Let_def new_def split: if_splits)
  note D = ledger_okD[OF assms]
  show ?thesis unfolding g'
  proof (rule ledger_okI)
    show "distinct (map shift_id (g_shifts (g\<lparr>g_shifts := g_shifts g @ [new]\<rparr>)))"
      using D(1) fresh by auto
    show "dom (userPicks (g\<lparr>g_shifts := g_shifts g @ [new]\<rparr>)) = set users" using D(2) by simp
  next
    fix u ps assume "userPicks (g\<lparr>g_shifts := g_shifts g @ [new]\<rparr>) u = Some ps"
    then have "userPicks g u = Some ps" by simp
    from D(3)[OF this]
    show "distinct ps \<and> length ps \<le> maxShiftsPerUser \<and> set ps \<subseteq> shift_id ` set (g_shifts (g\<lparr>g_shifts := g_shifts g @ [new]\<rparr>))"
      by auto
  next
    fix s u assume s: "s \<in> set (g_shifts (g\<lparr>g_shifts := g_shifts g @ [new]\<rparr>))"
    show "(u \<in> set (assigned s)) = (\<exists>ps. userPicks (g\<lparr>g_shifts := g_shifts g @ [new]\<rparr>) u = Some ps \<and> shift_id s \<in> set ps)"
    proof (cases "s = new")
      case True
      have "\<not> (\<exists>ps. userPicks g u = Some ps \<and> shift_id new \<in> set ps)"
      proof
        assume "\<exists>ps. userPicks g u = Some ps \<and> shift_id new \<in> set ps"
        then obtain ps where "userPicks g u = Some ps" "shift_id new \<in> set ps" by blast
        then have "shift_id new \<in> shift_id ` set (g_shifts g)" using D(3) by blast
        then show False using fresh by auto
      qed
      then show ?thesis using True by (simp add: new_def)
    next
      case False
      then have "s \<in> set (g_shifts g)" using s by simp
      from D(4)[OF this] show ?thesis by simp
    qed
  qed
qed

lemma handleSelect_release:
  assumes "currentUser g = Some cu" "cu \<noteq> []" "\<not> finishedUsers g cu"
    and "find (\<lambda>s. shift_id s = i) (g_shifts g) = Some sh" "cu \<in> set (assigned sh)"
    and "userPicks g cu = Some ps"
  shows "handleSelect i g =
           (None, g\<lparr>g_shifts := update_first i (\<lambda>s. s\<lparr>assigned := filter (\<lambda>u. u \<noteq> cu) (assigned s)\<rparr>) (g_shifts g),
                     userPicks := (userPicks g)(cu \<mapsto> remove1 i ps)\<rparr>)"
  using assms by (simp add: handleSelect_def)

lemma handleSelect_take:
  assumes "currentUser g = Some cu" "cu \<noteq> []" "\<not> finishedUsers g cu"
    and "find (\<lambda>s. shift_id s = i) (g_shifts g) = Some sh" "cu \<notin> set (assigned sh)"
    and "userPicks g cu = Some ps" "length ps < maxShiftsPerUser"
  shows "handleSelect i g =
           (None, g\<lparr>g_shifts := update_first i (\<lambda>s. s\<lparr>assigned := assigned s @ [cu]\<rparr>) (g_shifts g),
                     userPicks := (userPicks g)(cu \<mapsto> ps @ [i])\<rparr>)"
  using assms by (simp add: handleSelect_def)

lemma handleSelect_full:
  assumes "currentUser g = Some cu" "cu \<noteq> []" "\<not> finishedUsers g cu"
    and "find (\<lambda>s. shift_id s = i) (g_shifts g) = Some sh" "cu \<notin> set (assigned sh)"
    and "userPicks g cu = Some ps" "length ps \<ge> maxShiftsPerUser"
  shows "handleSelect i g = (Some QuotaExceeded, g)"
  using assms by (simp add: handleSelect_def)

lemma handleSelect_otherwise:
  assumes "\<not> (\<exists>cu sh. currentUser g = Some cu \<and> cu \<noteq> [] \<and> \<not> finishedUsers g cu
              \<and> find (\<lambda>s. shift_id s = i) (g_shifts g) = Some sh
              \<and> (cu \<in> set (assigned sh) \<or> (\<exists>ps. userPicks g cu = Some ps \<and> length ps < maxShiftsPerUser)))"
  shows "snd (handleSelect i g) = g"
proof (cases "currentUser g")
  case None
  then show ?thesis by (simp add: handleSelect_def)
next
  case (Some cu)
  show ?thesis
  proof (cases "cu = [] \<or> finishedUsers g cu")
    case True
    then show ?thesis using Some by (auto simp: handleSelect_def)
  next
    case False
    show ?thesis
    proof (cases "find (\<lambda>s. shift_id s = i) (g_shifts g)")
      case None
      then show ?thesis using Some False by (simp add: handleSelect_def)
    next
      case (Some sh)
      have na: "cu \<notin> set (assigned sh)" using assms \<open>currentUser g = Some cu\<close> False Some by blast
      show ?thesis
      proof (cases "userPicks g cu")
        case None
        then show ?thesis using \<open>currentUser g = Some cu\<close> False Some na by (simp add: handleSelect_def)
      next
        case (Some ps)
        then have "length ps \<ge> maxShiftsPerUser"
          using assms \<open>currentUser g = Some cu\<close> False \<open>find (\<lambda>s. shift_id s = i) (g_shifts g) = Some sh\<close>
          by (meson not_le_imp_less)
        then show ?thesis
          using handleSelect_full[OF \<open>currentUser g = Some cu\<close> _ _ \<open>find (\<lambda>s. shift_id s = i) (g_shifts g) = Some sh\<close> na Some]
            False by simp
      qed
    qed
  qed
qed

lemma ledger_ok_release:
  assumes ok: "ledger_ok g" and sh: "sh \<in> set (g_shifts g)" and cu: "cu \<in> set (assigned sh)"
    and ps: "userPicks g cu = Some ps"
  shows "ledger_ok (g\<lparr>g_shifts := update_first (shift_id sh) (\<lambda>s. s\<lparr>assigned := filter (\<lambda>u. u \<noteq> cu) (assigned s)\<rparr>) (g_shifts g),
                     userPicks := (userPicks g)(cu \<mapsto> remove1 (shift_id sh) ps)\<rparr>)"
    (is "ledger_ok ?g'")
proof -
  note D = ledger_okD[OF ok]
  define f :: "shift \<Rightarrow> shift" where "f = (\<lambda>s. if shift_id s = shift_id sh then s\<lparr>assigned := filter (\<lambda>u. u \<noteq> cu) (assigned s)\<rparr> else s)"
  have sh': "g_shifts ?g' = map f (g_shifts g)"
    using update_first_map[OF D(1)] by (simp add: f_def)
  have up': "userPicks ?g' = (userPicks g)(cu \<mapsto> remove1 (shift_id sh) ps)" by simp
  have idf: "shift_id (f s) = shift_id s" for s by (simp add: f_def)
  have ids: "map shift_id (g_shifts ?g') = map shift_id (g_shifts g)"
    unfolding sh' by (simp add: idf comp_def)
  have dps: "distinct ps" using D(3)[OF ps] by simp
  show ?thesis
  proof (rule ledger_okI)
    show "distinct (map shift_id (g_shifts ?g'))" unfolding ids using D(1) .
    show "dom (userPicks ?g') = set users" unfolding up' using D(2) ps by auto
  next
    fix u qs assume q: "userPicks ?g' u = Some qs"
    have img: "shift_id ` set (g_shifts ?g') = shift_id ` set (g_shifts g)"
      using ids by (metis list.set_map)
    show "distinct qs \<and> length qs \<le> maxShiftsPerUser \<and> set qs \<subseteq> shift_id ` set (g_shifts ?g')"
    proof (cases "u = cu")
      case True
      then have qs: "qs = remove1 (shift_id sh) ps" using q by simp
      have "length (remove1 (shift_id sh) ps) \<le> length ps" by (simp add: length_remove1)
      moreover have "set (remove1 (shift_id sh) ps) \<subseteq> set ps" by (rule set_remove1_subset)
      ultimately show ?thesis unfolding img qs using D(3)[OF ps] by auto
    next
      case False
      then have "userPicks g u = Some qs" using q by simp
      from D(3)[OF this] show ?thesis unfolding img .
    qed
  next
    fix s' u assume "s' \<in> set (g_shifts ?g')"
    then obtain s where s: "s \<in> set (g_shifts g)" "s' = f s" unfolding sh' by auto
    show "(u \<in> set (assigned s')) = (\<exists>qs. userPicks ?g' u = Some qs \<and> shift_id s' \<in> set qs)"
    proof (cases "u = cu")
      case True
      have rhs: "(\<exists>qs. userPicks ?g' u = Some qs \<and> shift_id s' \<in> set qs)
                 = (shift_id s \<in> set (remove1 (shift_id sh) ps))"
        using True s(2) idf by simp
      show ?thesis
      proof (cases "shift_id s = shift_id sh")
        case True
        then show ?thesis unfolding rhs using dps \<open>u = cu\<close> s(2) by (simp add: f_def)
      next
        case False
        then have "(shift_id s \<in> set (remove1 (shift_id sh) ps)) = (shift_id s \<in> set ps)"
          using dps by simp
        then show ?thesis unfolding rhs using False \<open>u = cu\<close> s(2) D(4)[OF s(1), of cu] ps by (simp add: f_def)
      qed
    next
      case False
      have "(u \<in> set (assigned s')) = (u \<in> set (assigned s))"
        using False s(2) by (simp add: f_def)
      then show ?thesis using D(4)[OF s(1), of u] False s(2) idf by simp
    qed
  qed
qed

lemma ledger_ok_take:
  assumes ok: "ledger_ok g" and sh: "sh \<in> set (g_shifts g)" and cu: "cu \<notin> set (assigned sh)"
    and ps: "userPicks g cu = Some ps" and len: "length ps < maxShiftsPerUser"
  shows "ledger_ok (g\<lparr>g_shifts := update_first (shift_id sh) (\<lambda>s. s\<lparr>assigned := assigned s @ [cu]\<rparr>) (g_shifts g),
                     userPicks := (userPicks g)(cu \<mapsto> ps @ [shift_id sh])\<rparr>)"
    (is "ledger_ok ?g'")
proof -
  note D = ledger_okD[OF ok]
  define f :: "shift \<Rightarrow> shift" where "f = (\<lambda>s. if shift_id s = shift_id sh then s\<lparr>assigned := assigned s @ [cu]\<rparr> else s)"
  have sh': "g_shifts ?g' = map f (g_shifts g)"
    using update_first_map[OF D(1)] by (simp add: f_def)
  have up': "userPicks ?g' = (userPicks g)(cu \<mapsto> ps @ [shift_id sh])" by simp
  have idf: "shift_id (f s) = shift_id s" for s by (simp add: f_def)
  have ids: "map shift_id (g_shifts ?g') = map shift_id (g_shifts g)"
    unfolding sh' by (simp add: idf comp_def)
  have fresh: "shift_id sh \<notin> set ps" using D(4)[OF sh, of cu] cu ps by simp
  have img: "shift_id ` set (g_shifts ?g') = shift_id ` set (g_shifts g)"
    using ids by (metis list.set_map)
  show ?thesis
  proof (rule ledger_okI)
    show "distinct (map shift_id (g_shifts ?g'))" unfolding ids using D(1) .
    show "dom (userPicks ?g') = set users" unfolding up' using D(2) ps by auto
  next
    fix u qs assume q: "userPicks ?g' u = Some qs"
    show "distinct qs \<and> length qs \<le> maxShiftsPerUser \<and> set qs \<subseteq> shift_id ` set (g_shifts ?g')"
    proof (cases "u = cu")
      case True
      then have qs: "qs = ps @ [shift_id sh]" using q by simp
      show ?thesis unfolding img qs using D(3)[OF ps] fresh len sh by auto
    next
      case False
      then have "userPicks g u = Some qs" using q by simp
      from D(3)[OF this] show ?thesis unfolding img .
    qed
  next
    fix s' u assume "s' \<in> set (g_shifts ?g')"
    then obtain s where s: "s \<in> set (g_shifts g)" "s' = f s" unfolding sh' by auto
    show "(u \<in> set (assigned s')) = (\<exists>qs. userPicks ?g' u = Some qs \<and> shift_id s' \<in> set qs)"
    proof (cases "u = cu")
      case True
      have rhs: "(\<exists>qs. userPicks ?g' u = Some qs \<and> shift_id s' \<in> set qs)
                 = (shift_id s \<in> set (ps @ [shift_id sh]))"
        using True s(2) idf by simp
      show ?thesis
      proof (cases "shift_id s = shift_id sh")
        case True
        then show ?thesis unfolding rhs using \<open>u = cu\<close> s(2) by (simp add: f_def)
      next
        case False
        then show ?thesis unfolding rhs using \<open>u = cu\<close> s(2) D(4)[OF s(1), of cu] ps by (simp add: f_def)
      qed
    next
      case False
      have "(u \<in> set (assigned s')) = (u \<in> set (assigned s))"
        using False s(2) by (simp add: f_def)
      then show ?thesis using D(4)[OF s(1), of u] False s(2) idf by simp
    qed
  qed
qed

lemma ledger_ok_handleSelect:
  assumes "ledger_ok g"
  shows "ledger_ok (snd (handleSelect i g))"
proof (cases "\<exists>cu sh. currentUser g = Some cu \<and> cu \<noteq> [] \<and> \<not> finishedUsers g cu
              \<and> find (\<lambda>s. shift_id s = i) (g_shifts g) = Some sh
              \<and> (cu \<in> set (assigned sh) \<or> (\<exists>ps. userPicks g cu = Some ps \<and> length ps < maxShiftsPerUser))")
  case False
  then show ?thesis using handleSelect_otherwise[of g i] assms by simp
next
  case True
  then obtain cu sh where c: "currentUser g = Some cu" "cu \<noteq> []" "\<not> finishedUsers g cu"
    "find (\<lambda>s. shift_id s = i) (g_shifts g) = Some sh"
    "cu \<in> set (assigned sh) \<or> (\<exists>ps. userPicks g cu = Some ps \<and> length ps < maxShiftsPerUser)"
    by blast
  have sh: "sh \<in> set (g_shifts g)" "shift_id sh = i" using find_Some_mem[OF c(4)] by simp_all
  show ?thesis
  proof (cases "cu \<in> set (assigned sh)")
    case True
    then obtain ps where ps: "userPicks g cu = Some ps"
      using ledger_okD(4)[OF assms sh(1), of cu] by blast
    show ?thesis
      unfolding handleSelect_release[OF c(1,2,3,4) True ps]
      using ledger_ok_release[OF assms sh(1) True ps] sh(2) by simp
  next
    case False
    then obtain ps where ps: "userPicks g cu = Some ps" "length ps < maxShiftsPerUser" using c(5) by blast
    show ?thesis
      unfolding handleSelect_take[OF c(1,2,3,4) False ps]
      using ledger_ok_take[OF assms sh(1) False ps] sh(2) by simp
  qed
qed

lemma list_all2_resolved_same:
  assumes "list_all2 (resolved_from hostDay g) ss ss'" "\<forall>s \<in> set ss. length (assigned s) \<le> 1"
  shows "ss' = ss"
  using assms
proof (induction ss ss' rule: list_all2_induct)
  case Nil
  then show ?case by simp
next
  case (Cons s ss s' ss')
  then show ?case using resolved_from_facts(6)[OF Cons.hyps(1)] by simp
qed

lemma list_all2_resolved_assigned:
  assumes "list_all2 (resolved_from hostDay g) ss ss'" "s' \<in> set ss'"
  shows "\<exists>s \<in> set ss. shift_id s' = shift_id s \<and> set (assigned s') \<subseteq> set (assigned s)"
  using list_all2_resolved_props(3)[OF assms(1)] assms(2) by blast

lemma distinct_ids_eq:
  assumes "distinct (map shift_id ss)" "a \<in> set ss" "b \<in> set ss" "shift_id a = shift_id b"
  shows "a = b"
  using assms by (meson distinct_map inj_on_def)

text \<open>The pick arrays the second part of the pass builds: the ids of the shifts a resident is
  assigned to, in the order of the shift array.\<close>

lemma ledger_ok_resolveConflicts:
  assumes ok: "ledger_ok g"
  shows "\<exists>n' ss'. n \<le> n' \<and> list_all2 (resolved_from hostDay g) (g_shifts g) ss'
           \<and> resolveConflicts hostDay rnd n g =
               (None, n', g\<lparr>g_shifts := ss',
                            userPicks := (\<lambda>u. if u \<in> set users
                                               then Some (map shift_id (filter (\<lambda>s. u \<in> set (assigned s)) ss'))
                                               else None)\<rparr>)
           \<and> ledger_ok (snd (snd (resolveConflicts hostDay rnd n g)))"
proof -
  note D = ledger_okD[OF ok]
  have H: "\<forall>s \<in> set (g_shifts g). \<forall>u \<in> set (assigned s). userPicks g u \<noteq> None"
    using D(4) by blast
  from resolveConflicts_ok[OF H, of n hostDay rnd]
  obtain n' ss' where r: "n \<le> n'" "list_all2 (resolved_from hostDay g) (g_shifts g) ss'"
    "resolveConflicts hostDay rnd n g =
       (None, n', g\<lparr>g_shifts := ss',
                    userPicks := (\<lambda>u. map_option (\<lambda>ps. ps @ map shift_id (filter (\<lambda>s. u \<in> set (assigned s)) ss'))
                                         (if u \<in> set users then Some [] else userPicks g u))\<rparr>)"
    by blast
  define P where "P = (\<lambda>u. map shift_id (filter (\<lambda>s. u \<in> set (assigned s)) ss'))"
  define up' where "up' = (\<lambda>u. if u \<in> set users then Some (P u) else None)"
  have upeq: "(\<lambda>u. map_option (\<lambda>ps. ps @ map shift_id (filter (\<lambda>s. u \<in> set (assigned s)) ss'))
                                         (if u \<in> set users then Some [] else userPicks g u)) = up'"
  proof (rule ext)
    fix u
    show "map_option (\<lambda>ps. ps @ map shift_id (filter (\<lambda>s. u \<in> set (assigned s)) ss'))
                                         (if u \<in> set users then Some [] else userPicks g u) = up' u"
    proof (cases "u \<in> set users")
      case True
      then show ?thesis by (simp add: up'_def P_def)
    next
      case False
      then have "userPicks g u = None" using D(2) by blast
      then show ?thesis using False by (simp add: up'_def)
    qed
  qed
  have res: "resolveConflicts hostDay rnd n g = (None, n', g\<lparr>g_shifts := ss', userPicks := up'\<rparr>)"
    using r(3) unfolding upeq .
  have ids: "map shift_id ss' = map shift_id (g_shifts g)" using list_all2_resolved_props(1)[OF r(2)] .
  have dist': "distinct (map shift_id ss')" unfolding ids using D(1) .
  have sub: "set (P u) \<subseteq> set ps" if "userPicks g u = Some ps" for u ps
  proof
    fix i assume "i \<in> set (P u)"
    then obtain s' where s': "s' \<in> set ss'" "u \<in> set (assigned s')" "shift_id s' = i"
      by (auto simp: P_def)
    from list_all2_resolved_assigned[OF r(2) s'(1)]
    obtain s where s: "s \<in> set (g_shifts g)" "shift_id s' = shift_id s" "set (assigned s') \<subseteq> set (assigned s)"
      by blast
    have "u \<in> set (assigned s)" using s(3) s'(2) by blast
    then show "i \<in> set ps" using D(4)[OF s(1), of u] that s(2) s'(3) by auto
  qed
  have dP: "distinct (P u)" for u unfolding P_def using dist' by (simp add: distinct_map_filter)
  have ok': "ledger_ok (g\<lparr>g_shifts := ss', userPicks := up'\<rparr>)"
  proof (rule ledger_okI)
    show "distinct (map shift_id (g_shifts (g\<lparr>g_shifts := ss', userPicks := up'\<rparr>)))" using dist' by simp
    show "dom (userPicks (g\<lparr>g_shifts := ss', userPicks := up'\<rparr>)) = set users"
      by (auto simp: up'_def split: if_splits)
  next
    fix u qs assume "userPicks (g\<lparr>g_shifts := ss', userPicks := up'\<rparr>) u = Some qs"
    then have u: "u \<in> set users" "qs = P u" by (auto simp: up'_def split: if_splits)
    obtain ps where ps: "userPicks g u = Some ps" using u(1) D(2) by blast
    have "length (P u) = card (set (P u))" using dP by (simp add: distinct_card)
    also have "\<dots> \<le> card (set ps)" using sub[OF ps] by (simp add: card_mono)
    also have "\<dots> \<le> length ps" by (rule card_length)
    finally have "length (P u) \<le> maxShiftsPerUser" using D(3)[OF ps] by simp
    moreover have "set (P u) \<subseteq> shift_id ` set ss'" by (auto simp: P_def)
    ultimately show "distinct qs \<and> length qs \<le> maxShiftsPerUser
        \<and> set qs \<subseteq> shift_id ` set (g_shifts (g\<lparr>g_shifts := ss', userPicks := up'\<rparr>))"
      using dP u(2) by simp
  next
    fix s' u assume "s' \<in> set (g_shifts (g\<lparr>g_shifts := ss', userPicks := up'\<rparr>))"
    then have s': "s' \<in> set ss'" by simp
    show "(u \<in> set (assigned s')) = (\<exists>qs. userPicks (g\<lparr>g_shifts := ss', userPicks := up'\<rparr>) u = Some qs \<and> shift_id s' \<in> set qs)"
    proof
      assume a: "u \<in> set (assigned s')"
      from list_all2_resolved_assigned[OF r(2) s']
      obtain s where s: "s \<in> set (g_shifts g)" "set (assigned s') \<subseteq> set (assigned s)" by blast
      then have "u \<in> set (assigned s)" using a by blast
      then have "userPicks g u \<noteq> None" using D(4)[OF s(1), of u] by auto
      then have "u \<in> set users" using D(2) by blast
      moreover have "shift_id s' \<in> set (P u)" using a s' by (auto simp: P_def)
      ultimately show "\<exists>qs. userPicks (g\<lparr>g_shifts := ss', userPicks := up'\<rparr>) u = Some qs \<and> shift_id s' \<in> set qs"
        by (simp add: up'_def)
    next
      assume "\<exists>qs. userPicks (g\<lparr>g_shifts := ss', userPicks := up'\<rparr>) u = Some qs \<and> shift_id s' \<in> set qs"
      then have "shift_id s' \<in> set (P u)" by (auto simp: up'_def split: if_splits)
      then obtain t where t: "t \<in> set ss'" "u \<in> set (assigned t)" "shift_id t = shift_id s'"
        by (auto simp: P_def)
      have "t = s'" using distinct_ids_eq[OF dist' t(1) s' t(3)] .
      then show "u \<in> set (assigned s')" using t(2) by simp
    qed
  qed
  show ?thesis using r(1,2) res ok' unfolding up'_def P_def by auto
qed

lemma ledger_ok_perform:
  assumes "ledger_ok (snd ng)"
  shows "ledger_ok (snd (perform hostDay rnd a ng))"
proof -
  obtain n g where ng: "ng = (n, g)" by (cases ng)
  have ok: "ledger_ok g" using assms ng by simp
  show ?thesis
  proof (cases a)
    case (AddShift d t)
    then show ?thesis using ng ledger_ok_addNewShift[OF ok] by simp
  next
    case (Start name)
    then show ?thesis using ng ledger_ok_startBtn[OF ok] by simp
  next
    case Back
    then show ?thesis using ng ledger_ok_backBtn[OF ok] by simp
  next
    case (Select i)
    then show ?thesis using ng ledger_ok_handleSelect[OF ok] by simp
  next
    case Finish
    then show ?thesis using ng ledger_ok_finish[OF ok] by simp
  next
    case Resolve
    then show ?thesis using ng ledger_ok_resolveConflicts[OF ok, of n hostDay rnd] by auto
  qed
qed

lemma ledger_ok_run:
  "ledger_ok (snd ng) \<Longrightarrow> ledger_ok (snd (run_actions hostDay rnd acts ng))"
  unfolding run_actions_def
  by (induction acts arbitrary: ng) (simp_all add: ledger_ok_perform)

text \<open>On globals without a contested shift the pass keeps the shifts and draws nothing.\<close>

lemma resolveConflicts_conflict_free:
  assumes ok: "ledger_ok g" and one: "\<forall>s \<in> set (g_shifts g). length (assigned s) \<le> 1"
  shows "resolveConflicts hostDay rnd n g =
           (None, n, g\<lparr>userPicks := (\<lambda>u. if u \<in> set users
                                         then Some (map shift_id (filter (\<lambda>s. u \<in> set (assigned s)) (g_shifts g)))
                                         else None)\<rparr>)"
    and "\<And>u ps. userPicks g u = Some ps \<Longrightarrow>
           set (map shift_id (filter (\<lambda>s. u \<in> set (assigned s)) (g_shifts g))) = set ps"
proof -
  note D = ledger_okD[OF ok]
  have H: "\<forall>s \<in> set (g_shifts g). \<forall>u \<in> set (assigned s). userPicks g u \<noteq> None"
    using D(4) by blast
  have rs: "resolve_shifts hostDay rnd g (g_shifts g) n = (None, n, g_shifts g)"
    using resolve_shifts_unchanged[OF one] .
  from ledger_ok_resolveConflicts[OF ok, of n hostDay rnd]
  obtain n' ss' where r: "list_all2 (resolved_from hostDay g) (g_shifts g) ss'"
    "resolveConflicts hostDay rnd n g =
               (None, n', g\<lparr>g_shifts := ss',
                            userPicks := (\<lambda>u. if u \<in> set users
                                               then Some (map shift_id (filter (\<lambda>s. u \<in> set (assigned s)) ss'))
                                               else None)\<rparr>)" by blast
  have same: "ss' = g_shifts g" using list_all2_resolved_same[OF r(1) one] .
  have "fst (snd (resolveConflicts hostDay rnd n g)) = n"
    unfolding resolveConflicts_def rs by (simp split: prod.splits)
  then have "n' = n" using r(2) by simp
  then show "resolveConflicts hostDay rnd n g =
           (None, n, g\<lparr>userPicks := (\<lambda>u. if u \<in> set users
                                         then Some (map shift_id (filter (\<lambda>s. u \<in> set (assigned s)) (g_shifts g)))
                                         else None)\<rparr>)"
    using r(2)[unfolded same] by simp
  fix u ps assume ps: "userPicks g u = Some ps"
  show "set (map shift_id (filter (\<lambda>s. u \<in> set (assigned s)) (g_shifts g))) = set ps"
  proof
    show "set (map shift_id (filter (\<lambda>s. u \<in> set (assigned s)) (g_shifts g))) \<subseteq> set ps"
      using D(4) ps by auto
    show "set ps \<subseteq> set (map shift_id (filter (\<lambda>s. u \<in> set (assigned s)) (g_shifts g)))"
    proof
      fix i assume i: "i \<in> set ps"
      then obtain s where s: "s \<in> set (g_shifts g)" "shift_id s = i" using D(3)[OF ps] by auto
      then have "u \<in> set (assigned s)" using D(4)[OF s(1), of u] ps i by auto
      then show "i \<in> set (map shift_id (filter (\<lambda>s. u \<in> set (assigned s)) (g_shifts g)))"
        using s by auto
    qed
  qed
qed

section \<open>A pass over a ledger without conflicts\<close>

lemma resolveConflicts_twice:
  assumes ok: "ledger_ok g"
  shows "resolveConflicts hostDay rnd' (fst (snd (resolveConflicts hostDay rnd n g)))
           (snd (snd (resolveConflicts hostDay rnd n g)))
         = (None, fst (snd (resolveConflicts hostDay rnd n g)), snd (snd (resolveConflicts hostDay rnd n g)))"
proof -
  from ledger_ok_resolveConflicts[OF ok, of n hostDay rnd]
  obtain n' ss' where r: "list_all2 (resolved_from hostDay g) (g_shifts g) ss'"
    "resolveConflicts hostDay rnd n g =
               (None, n', g\<lparr>g_shifts := ss',
                            userPicks := (\<lambda>u. if u \<in> set users
                                               then Some (map shift_id (filter (\<lambda>s. u \<in> set (assigned s)) ss'))
                                               else None)\<rparr>)"
    "ledger_ok (snd (snd (resolveConflicts hostDay rnd n g)))" by blast
  define g1 where "g1 = snd (snd (resolveConflicts hostDay rnd n g))"
  have g1: "g_shifts g1 = ss'"
    "userPicks g1 = (\<lambda>u. if u \<in> set users
                          then Some (map shift_id (filter (\<lambda>s. u \<in> set (assigned s)) ss')) else None)"
    unfolding g1_def r(2) by simp_all
  have ok1: "ledger_ok g1" using r(3) by (simp add: g1_def)
  have one: "\<forall>s \<in> set (g_shifts g1). length (assigned s) \<le> 1"
    using list_all2_resolved_props(2)[OF r(1)] g1(1) by simp
  have "resolveConflicts hostDay rnd' n' g1 =
          (None, n', g1\<lparr>userPicks := (\<lambda>u. if u \<in> set users
                                         then Some (map shift_id (filter (\<lambda>s. u \<in> set (assigned s)) (g_shifts g1)))
                                         else None)\<rparr>)"
    using resolveConflicts_conflict_free(1)[OF ok1 one] .
  also have "\<dots> = (None, n', g1\<lparr>userPicks := userPicks g1\<rparr>)" unfolding g1 ..
  also have "\<dots> = (None, n', g1)" by simp
  finally have "resolveConflicts hostDay rnd' n' g1 = (None, n', g1)" .
  moreover have "fst (snd (resolveConflicts hostDay rnd n g)) = n'" using r(2) by simp
  ultimately show ?thesis unfolding g1_def by simp
qed

lemma ex_order_ok: "ledger_ok ex_order"
  unfolding ex_order_def by (rule ledger_ok_run) (simp add: ledger_ok_initial)

lemma ex_order_shifts:
  "map shift_id (g_shifts ex_order) = [''2025-09-01-puerta'', ''2025-09-03-puerta'']"
  "map assigned (g_shifts ex_order) = [[''Resident 1''], [''Resident 1'']]"
  by code_simp+

lemma ex_order_picks: "userPicks ex_order ''Resident 1'' = Some [''2025-09-03-puerta'', ''2025-09-01-puerta'']"
  by code_simp

lemma ex_order_conflict_free: "\<forall>s \<in> set (g_shifts ex_order). length (assigned s) \<le> 1"
proof -
  have "\<forall>a \<in> set (map assigned (g_shifts ex_order)). length a \<le> 1"
    unfolding ex_order_shifts by simp
  then show ?thesis by simp
qed

lemma ex_order_resolved:
  "userPicks (snd (snd (resolveConflicts (\<lambda>_. None) (\<lambda>_. 0) 0 ex_order))) ''Resident 1''
     = Some [''2025-09-01-puerta'', ''2025-09-03-puerta'']"
  by code_simp

text \<open>
  Claim C4, as the code has it. On a ledger where no shift has more than one
  claimant, \<^verbatim>\<open>resolveConflictsFair\<close> completes and leaves the whole state
  unchanged. \<^verbatim>\<open>resolveConflicts\<close> of script.js, on well-formed globals where no
  shift has more than one assigned resident, completes without a random draw and
  keeps the shifts with their assignments, the locks and the current user; each
  pick array is rebuilt as the ids of the resident's shifts in the order of the
  shift array, which are the same ids as before. A second call of
  \<^verbatim>\<open>resolveConflicts\<close> right after a first changes nothing at all.
\<close>

theorem C4_resolve_on_resolved_ledger:
  "((\<forall>s \<in> set (shifts st). card (set (whoIsAssigned st (shift_id s))) \<le> 1) \<longrightarrow>
       fst (resolveConflictsFair rnd n st) = None \<and> snd (snd (resolveConflictsFair rnd n st)) = st)
   \<and> (ledger_ok g \<and> (\<forall>s \<in> set (g_shifts g). length (assigned s) \<le> 1) \<longrightarrow>
         fst (resolveConflicts hostDay rnd n g) = None
       \<and> fst (snd (resolveConflicts hostDay rnd n g)) = n
       \<and> g_shifts (snd (snd (resolveConflicts hostDay rnd n g))) = g_shifts g
       \<and> finishedUsers (snd (snd (resolveConflicts hostDay rnd n g))) = finishedUsers g
       \<and> currentUser (snd (snd (resolveConflicts hostDay rnd n g))) = currentUser g
       \<and> (\<forall>u. userPicks g u = None \<longrightarrow> userPicks (snd (snd (resolveConflicts hostDay rnd n g))) u = None)
       \<and> (\<forall>u ps. userPicks g u = Some ps \<longrightarrow>
             userPicks (snd (snd (resolveConflicts hostDay rnd n g))) u
               = Some (map shift_id (filter (\<lambda>s. u \<in> set (assigned s)) (g_shifts g)))
           \<and> set (map shift_id (filter (\<lambda>s. u \<in> set (assigned s)) (g_shifts g))) = set ps))
   \<and> (ledger_ok g \<longrightarrow>
         resolveConflicts hostDay rnd' (fst (snd (resolveConflicts hostDay rnd n g)))
           (snd (snd (resolveConflicts hostDay rnd n g)))
         = (None, fst (snd (resolveConflicts hostDay rnd n g)), snd (snd (resolveConflicts hostDay rnd n g))))"
proof -
  have 1: "fst (resolveConflictsFair rnd n st) = None \<and> snd (snd (resolveConflictsFair rnd n st)) = st"
    if "\<forall>s \<in> set (shifts st). card (set (whoIsAssigned st (shift_id s))) \<le> 1"
    using resolveConflictsFair_noop[OF that, of rnd n] by auto
  have 2: "fst (resolveConflicts hostDay rnd n g) = None
       \<and> fst (snd (resolveConflicts hostDay rnd n g)) = n
       \<and> g_shifts (snd (snd (resolveConflicts hostDay rnd n g))) = g_shifts g
       \<and> finishedUsers (snd (snd (resolveConflicts hostDay rnd n g))) = finishedUsers g
       \<and> currentUser (snd (snd (resolveConflicts hostDay rnd n g))) = currentUser g
       \<and> (\<forall>u. userPicks g u = None \<longrightarrow> userPicks (snd (snd (resolveConflicts hostDay rnd n g))) u = None)
       \<and> (\<forall>u ps. userPicks g u = Some ps \<longrightarrow>
             userPicks (snd (snd (resolveConflicts hostDay rnd n g))) u
               = Some (map shift_id (filter (\<lambda>s. u \<in> set (assigned s)) (g_shifts g)))
           \<and> set (map shift_id (filter (\<lambda>s. u \<in> set (assigned s)) (g_shifts g))) = set ps)"
    if ok: "ledger_ok g" and one: "\<forall>s \<in> set (g_shifts g). length (assigned s) \<le> 1"
  proof -
    note r1 = resolveConflicts_conflict_free(1)[OF ok one, of hostDay rnd n]
    note r2 = resolveConflicts_conflict_free(2)[OF ok one]
    have dom: "dom (userPicks g) = set users" using ledger_okD(2)[OF ok] .
    have a: "userPicks (snd (snd (resolveConflicts hostDay rnd n g))) u = None" if "userPicks g u = None" for u
    proof -
      have "u \<notin> set users" using that dom by blast
      then show ?thesis unfolding r1 by simp
    qed
    have b: "userPicks (snd (snd (resolveConflicts hostDay rnd n g))) u
               = Some (map shift_id (filter (\<lambda>s. u \<in> set (assigned s)) (g_shifts g)))"
      if "userPicks g u = Some ps" for u ps
    proof -
      have "u \<in> set users" using that dom by blast
      then show ?thesis unfolding r1 by simp
    qed
    have c: "fst (resolveConflicts hostDay rnd n g) = None
       \<and> fst (snd (resolveConflicts hostDay rnd n g)) = n
       \<and> g_shifts (snd (snd (resolveConflicts hostDay rnd n g))) = g_shifts g
       \<and> finishedUsers (snd (snd (resolveConflicts hostDay rnd n g))) = finishedUsers g
       \<and> currentUser (snd (snd (resolveConflicts hostDay rnd n g))) = currentUser g"
      unfolding r1 by simp
    show ?thesis using a b c r2 by blast
  qed
  show ?thesis using 1 2 resolveConflicts_twice by blast
qed

text \<open>
  The claim as stated fails for script.js: Resident 1 took the later shift first,
  no shift is contested, and the pass reorders the resident's claim list.
\<close>

theorem C4_counterexample:
  "ledger_ok ex_order
   \<and> map assigned (g_shifts ex_order) = [[''Resident 1''], [''Resident 1'']]
   \<and> userPicks ex_order ''Resident 1'' = Some [''2025-09-03-puerta'', ''2025-09-01-puerta'']
   \<and> userPicks (snd (snd (resolveConflicts (\<lambda>_. None) (\<lambda>_. 0) 0 ex_order))) ''Resident 1''
        = Some [''2025-09-01-puerta'', ''2025-09-03-puerta'']
   \<and> snd (snd (resolveConflicts (\<lambda>_. None) (\<lambda>_. 0) 0 ex_order)) \<noteq> ex_order"
proof -
  have "userPicks (snd (snd (resolveConflicts (\<lambda>_. None) (\<lambda>_. 0) 0 ex_order))) ''Resident 1''
          \<noteq> userPicks ex_order ''Resident 1''"
    unfolding ex_order_resolved ex_order_picks by simp
  then have "snd (snd (resolveConflicts (\<lambda>_. None) (\<lambda>_. 0) 0 ex_order)) \<noteq> ex_order" by auto
  then show ?thesis using ex_order_ok ex_order_shifts(2) ex_order_picks ex_order_resolved by blast
qed

lemma ex_state_after_remove_conflict_free:
  "\<forall>s \<in> set (shifts (snd (removeBtn_onclick ''S1'' ex_state))).
     card (set (whoIsAssigned (snd (removeBtn_onclick ''S1'' ex_state)) (shift_id s))) \<le> 1"
proof -
  have "list_all (\<lambda>s. length (whoIsAssigned (snd (removeBtn_onclick ''S1'' ex_state)) (shift_id s)) \<le> 1)
          (shifts (snd (removeBtn_onclick ''S1'' ex_state)))"
    by code_simp
  then have "\<forall>s \<in> set (shifts (snd (removeBtn_onclick ''S1'' ex_state))).
     length (whoIsAssigned (snd (removeBtn_onclick ''S1'' ex_state)) (shift_id s)) \<le> 1"
    by (simp add: list_all_iff)
  then show ?thesis using card_length le_trans by blast
qed

text \<open>
  Witness: the scenario ledger without its contested shift, and the globals of the
  counterexample.
\<close>

theorem C4_resolve_on_resolved_ledger_witness:
  "list_all (\<lambda>s. card (set (whoIsAssigned (snd (removeBtn_onclick ''S1'' ex_state)) (shift_id s))) \<le> 1)
      (shifts (snd (removeBtn_onclick ''S1'' ex_state)))
   \<and> snd (snd (resolveConflictsFair (\<lambda>_. 0) 0 (snd (removeBtn_onclick ''S1'' ex_state))))
        = snd (removeBtn_onclick ''S1'' ex_state)
   \<and> ledger_ok ex_order \<and> list_all (\<lambda>s. length (assigned s) \<le> 1) (g_shifts ex_order)
   \<and> g_shifts (snd (snd (resolveConflicts (\<lambda>_. None) (\<lambda>_. 0) 0 ex_order))) = g_shifts ex_order
   \<and> resolveConflicts (\<lambda>_. None) (\<lambda>_. 0) (fst (snd (resolveConflicts (\<lambda>_. None) (\<lambda>_. 0) 0 ex_order)))
           (snd (snd (resolveConflicts (\<lambda>_. None) (\<lambda>_. 0) 0 ex_order)))
         = (None, fst (snd (resolveConflicts (\<lambda>_. None) (\<lambda>_. 0) 0 ex_order)),
            snd (snd (resolveConflicts (\<lambda>_. None) (\<lambda>_. 0) 0 ex_order)))"
  unfolding list_all_iff
  using C4_resolve_on_resolved_ledger[of "snd (removeBtn_onclick ''S1'' ex_state)" "\<lambda>_. 0" 0 ex_order
          "\<lambda>_. None" "\<lambda>_. 0"]
    ex_state_after_remove_conflict_free ex_order_ok ex_order_conflict_free
  by blast

section \<open>Quota, consistency and re-claiming\<close>

lemma ex_full_globals_ok: "ledger_ok ex_full_globals"
  unfolding ex_full_globals_def by (rule ledger_ok_run) (simp add: ledger_ok_initial)

lemma ex_full_globals_facts:
  "currentUser ex_full_globals = Some ''Resident 1''"
  "finishedUsers ex_full_globals ''Resident 1'' = False"
  "userPicks ex_full_globals ''Resident 1''
     = Some [''2025-09-01-puerta'', ''2025-09-02-puerta'', ''2025-09-03-puerta'', ''2025-09-04-puerta'']"
  "map_option assigned (find (\<lambda>s. shift_id s = ''2025-09-05-puerta'') (g_shifts ex_full_globals)) = Some []"
  "map_option assigned (find (\<lambda>s. shift_id s = ''2025-09-01-puerta'') (g_shifts ex_full_globals))
     = Some [''Resident 1'']"
  by code_simp+

lemma ex_full_state_facts:
  "picks ex_full_state ''Resident 1'' = Some [''S1'', ''S2'', ''S3'', ''S4'']"
  "slotsPerResident (config ex_full_state) = 4"
  "within_quota ex_full_state"
  by code_simp+

text \<open>
  Claim C5. In the clean version every sequence of claims and releases keeps every
  resident within \<open>slotsPerResident\<close>, and a claim by a resident whose pick array
  is full is answered with \<open>QuotaExceeded\<close> on an unchanged state. In script.js
  every sequence of user actions on well-formed globals keeps every pick array
  within \<open>maxShiftsPerUser\<close>, and selecting a further shift with a full pick
  array is answered with \<open>QuotaExceeded\<close> on unchanged globals.
\<close>

theorem C5_quota_never_exceeded:
  "(within_quota st \<longrightarrow> within_quota (run_pick_ops ops st))
   \<and> (picks st name = Some arr \<and> length arr = slotsPerResident (config st) \<longrightarrow>
         cb_change name ident True st = (Some QuotaExceeded, st))
   \<and> (ledger_ok g \<longrightarrow>
         (\<forall>u ps. userPicks (snd (run_actions hostDay rnd acts (n, g))) u = Some ps
                  \<longrightarrow> length ps \<le> maxShiftsPerUser))
   \<and> (currentUser g = Some cu \<and> cu \<noteq> [] \<and> \<not> finishedUsers g cu
        \<and> find (\<lambda>s. shift_id s = i) (g_shifts g) = Some sh \<and> cu \<notin> set (assigned sh)
        \<and> userPicks g cu = Some ps \<and> length ps = maxShiftsPerUser \<longrightarrow>
         handleSelect i g = (Some QuotaExceeded, g))"
proof -
  have 1: "within_quota st \<longrightarrow> within_quota (run_pick_ops ops st)"
    using run_pick_ops_within_quota by blast
  have 2: "picks st name = Some arr \<and> length arr = slotsPerResident (config st) \<longrightarrow>
         cb_change name ident True st = (Some QuotaExceeded, st)"
    using cb_change_at_quota[of st name arr ident] by simp
  have 3: "\<forall>u ps. userPicks (snd (run_actions hostDay rnd acts (n, g))) u = Some ps
                  \<longrightarrow> length ps \<le> maxShiftsPerUser" if "ledger_ok g"
  proof -
    have "ledger_ok (snd (run_actions hostDay rnd acts (n, g)))"
      using ledger_ok_run[of "(n, g)" hostDay rnd acts] that by simp
    then show ?thesis using ledger_okD(3) by blast
  qed
  have 4: "currentUser g = Some cu \<and> cu \<noteq> [] \<and> \<not> finishedUsers g cu
        \<and> find (\<lambda>s. shift_id s = i) (g_shifts g) = Some sh \<and> cu \<notin> set (assigned sh)
        \<and> userPicks g cu = Some ps \<and> length ps = maxShiftsPerUser \<longrightarrow>
         handleSelect i g = (Some QuotaExceeded, g)"
    using handleSelect_full[of g cu i sh ps] by simp
  show ?thesis using 1 2 3 4 by blast
qed

text \<open>
  The scenario: with a limit of four and four picks a fifth claim fails with
  \<open>QuotaExceeded\<close> and the pick array keeps its four entries, in both variants.
\<close>

theorem C5_quota_never_exceeded_witness:
  "within_quota ex_full_state
   \<and> within_quota (run_pick_ops [Claim ''Resident 1'' ''S5'', Unclaim ''Resident 1'' ''S1'', Claim ''Resident 1'' ''S5''] ex_full_state)
   \<and> picks ex_full_state ''Resident 1'' = Some [''S1'', ''S2'', ''S3'', ''S4'']
   \<and> length [''S1'', ''S2'', ''S3'', ''S4''] = slotsPerResident (config ex_full_state)
   \<and> cb_change ''Resident 1'' ''S5'' True ex_full_state = (Some QuotaExceeded, ex_full_state)
   \<and> ledger_ok ex_full_globals
   \<and> userPicks ex_full_globals ''Resident 1''
        = Some [''2025-09-01-puerta'', ''2025-09-02-puerta'', ''2025-09-03-puerta'', ''2025-09-04-puerta'']
   \<and> (\<exists>ps. userPicks (snd (run_actions (\<lambda>_. None) (\<lambda>_. 0) [Select ''2025-09-05-puerta'', Resolve]
                          (0, ex_full_globals))) ''Resident 1'' = Some ps
            \<and> length ps \<le> maxShiftsPerUser)
   \<and> handleSelect ''2025-09-05-puerta'' ex_full_globals = (Some QuotaExceeded, ex_full_globals)"
proof -
  have run: "userPicks (snd (run_actions (\<lambda>_. None) (\<lambda>_. 0) [Select ''2025-09-05-puerta'', Resolve]
                          (0, ex_full_globals))) ''Resident 1''
             = Some [''2025-09-01-puerta'', ''2025-09-02-puerta'', ''2025-09-03-puerta'', ''2025-09-04-puerta'']"
    by code_simp
  obtain sh where sh: "find (\<lambda>s. shift_id s = ''2025-09-05-puerta'') (g_shifts ex_full_globals) = Some sh"
    "assigned sh = []"
    using ex_full_globals_facts(4) by auto
  have len: "length [''2025-09-01-puerta'', ''2025-09-02-puerta'', ''2025-09-03-puerta'', ''2025-09-04-puerta'']
             = maxShiftsPerUser" by (simp add: maxShiftsPerUser_def)
  have na: "''Resident 1'' \<notin> set (assigned sh)" using sh(2) by simp
  have l4: "length [''S1'', ''S2'', ''S3'', ''S4''] = slotsPerResident (config ex_full_state)"
    using ex_full_state_facts(2) by simp
  note T1 = C5_quota_never_exceeded[of ex_full_state
      "[Claim ''Resident 1'' ''S5'', Unclaim ''Resident 1'' ''S1'', Claim ''Resident 1'' ''S5'']"
      "''Resident 1''" "[''S1'', ''S2'', ''S3'', ''S4'']" "''S5''" ex_full_globals "\<lambda>_. None" "\<lambda>_. 0"
      "[Select ''2025-09-05-puerta'', Resolve]" 0 "''Resident 1''" "''2025-09-05-puerta''" sh
      "[''2025-09-01-puerta'', ''2025-09-02-puerta'', ''2025-09-03-puerta'', ''2025-09-04-puerta'']"]
  have ne: "''Resident 1'' \<noteq> []" by simp
  show ?thesis
    using T1 ex_full_state_facts(1,3) l4 ex_full_globals_ok ex_full_globals_facts(1,2,3) sh(1) na len ne run
    by blast
qed

text \<open>
  Claim C6. In the clean version the assigned residents of a shift are computed
  from the pick arrays, so in every state they are exactly the residents whose
  array holds the id. In script.js the stored \<^verbatim>\<open>assigned\<close> arrays agree with the
  pick arrays in the initial globals and after every sequence of user actions on
  well-formed globals.
\<close>

theorem C6_assignments_match_claim_lists:
  "set (whoIsAssigned st ident)
     = {r \<in> set (residents st). \<exists>ps. picks st r = Some ps \<and> ident \<in> set ps}
   \<and> ledger_ok initial_globals
   \<and> (ledger_ok g \<longrightarrow>
        (\<forall>s \<in> set (g_shifts (snd (run_actions hostDay rnd acts (n, g)))).
           set (assigned s)
             = {u. \<exists>ps. userPicks (snd (run_actions hostDay rnd acts (n, g))) u = Some ps
                        \<and> shift_id s \<in> set ps}))"
proof -
  have "\<forall>s \<in> set (g_shifts (snd (run_actions hostDay rnd acts (n, g)))).
           set (assigned s)
             = {u. \<exists>ps. userPicks (snd (run_actions hostDay rnd acts (n, g))) u = Some ps
                        \<and> shift_id s \<in> set ps}" if "ledger_ok g"
  proof -
    have ok: "ledger_ok (snd (run_actions hostDay rnd acts (n, g)))"
      using ledger_ok_run[of "(n, g)" hostDay rnd acts] that by simp
    show ?thesis using ledger_okD(4)[OF ok] by blast
  qed
  then show ?thesis using set_whoIsAssigned ledger_ok_initial by blast
qed

lemma ex_order_S2:
  "find (\<lambda>s. shift_id s = ''2025-09-03-puerta'') (g_shifts ex_order)
     = Some \<lparr>shift_id = ''2025-09-03-puerta'', shift_date = ''2025-09-03'', shift_type = ''Puerta'',
             assigned = [''Resident 1'']\<rparr>"
  by code_simp

text \<open>
  Witness: the contested shift of the scenario ledger; and in script.js, after two
  shifts were added and Resident 1 selected both, the stored assignment of the
  second shift is the set of residents holding its id.
\<close>

theorem C6_assignments_match_claim_lists_witness:
  "set (whoIsAssigned ex_state ''S1'')
     = {r \<in> set (residents ex_state). \<exists>ps. picks ex_state r = Some ps \<and> ''S1'' \<in> set ps}
   \<and> whoIsAssigned ex_state ''S1'' = [''Resident 1'', ''Resident 2'']
   \<and> ledger_ok initial_globals
   \<and> \<lparr>shift_id = ''2025-09-03-puerta'', shift_date = ''2025-09-03'', shift_type = ''Puerta'',
       assigned = [''Resident 1'']\<rparr> \<in> set (g_shifts ex_order)
   \<and> {''Resident 1''} = {u. \<exists>ps. userPicks ex_order u = Some ps \<and> ''2025-09-03-puerta'' \<in> set ps}"
proof -
  define s2 where "s2 = \<lparr>shift_id = ''2025-09-03-puerta'', shift_date = ''2025-09-03'', shift_type = ''Puerta'',
       assigned = [''Resident 1'']\<rparr>"
  have mem: "s2 \<in> set (g_shifts ex_order)"
    using find_Some_mem[OF ex_order_S2] by (simp add: s2_def)
  note T = C6_assignments_match_claim_lists[of ex_state "''S1''" initial_globals "\<lambda>_. None" "\<lambda>_. 0"
      "[AddShift ''2025-09-01'' ''Puerta'', AddShift ''2025-09-03'' ''Puerta'',
             Start ''Resident 1'', Select ''2025-09-03-puerta'', Select ''2025-09-01-puerta'']" 0]
  have "set (assigned s2) = {u. \<exists>ps. userPicks ex_order u = Some ps \<and> shift_id s2 \<in> set ps}"
    using T mem unfolding ex_order_def by blast
  then show ?thesis using T mem ex_state_contested by (simp add: s2_def)
qed


lemma cb_change_distinct:
  assumes "picks st name = Some arr" "distinct arr"
  shows "\<exists>arr'. picks (snd (cb_change name ident checked st)) name = Some arr' \<and> distinct arr'"
  using assms by (simp add: cb_change_def)

text \<open>
  Claim C7. In the clean version, checking the box of a shift the resident already
  holds (line 474: \<^verbatim>\<open>if (!arr.includes(s.id)) arr.push(s.id)\<close>) leaves the whole
  state, and with it the pick array and the residents assigned to the shift, as
  it was; below the limit it is silent. The limit is tested before the
  membership, in the order in which the pick ledger of the specification lists
  its checks, so a full pick array is answered with \<open>QuotaExceeded\<close>, again with
  the state untouched. A change of the handler, checking or unchecking, never
  puts an id twice into a duplicate-free pick array. In script.js, whose one
  handler toggles, no pick array holds an id twice in any state reached from the
  initial globals by user actions.
\<close>

theorem C7_reclaim_is_noop:
  "(picks st name = Some arr \<and> ident \<in> set arr \<longrightarrow>
       snd (cb_change name ident True st) = st
     \<and> (length arr < slotsPerResident (config st) \<longrightarrow> cb_change name ident True st = (None, st))
     \<and> (slotsPerResident (config st) \<le> length arr \<longrightarrow>
          cb_change name ident True st = (Some QuotaExceeded, st)))
   \<and> (picks st name = Some arr \<and> distinct arr \<longrightarrow>
         (\<exists>arr'. picks (snd (cb_change name ident checked st)) name = Some arr' \<and> distinct arr'))
   \<and> (\<forall>u ps. userPicks (snd (run_actions hostDay rnd acts (n, initial_globals))) u = Some ps \<longrightarrow>
         distinct ps)"
proof -
  have 1: "snd (cb_change name ident True st) = st
     \<and> (length arr < slotsPerResident (config st) \<longrightarrow> cb_change name ident True st = (None, st))
     \<and> (slotsPerResident (config st) \<le> length arr \<longrightarrow>
          cb_change name ident True st = (Some QuotaExceeded, st))"
    if "picks st name = Some arr" "ident \<in> set arr"
    unfolding cb_change_reclaim[OF that] by simp
  have 2: "\<exists>arr'. picks (snd (cb_change name ident checked st)) name = Some arr' \<and> distinct arr'"
    if "picks st name = Some arr" "distinct arr"
    using cb_change_distinct[OF that] .
  have 3: "distinct ps"
    if "userPicks (snd (run_actions hostDay rnd acts (n, initial_globals))) u = Some ps" for u ps
  proof -
    have "ledger_ok (snd (run_actions hostDay rnd acts (n, initial_globals)))"
      using ledger_ok_run[of "(n, initial_globals)" hostDay rnd acts] ledger_ok_initial by simp
    from ledger_okD(3)[OF this that] show ?thesis by simp
  qed
  show ?thesis using 1 2 3 by blast
qed

lemma ex_state_facts:
  "picks ex_state ''Resident 1'' = Some [''S1'']"
  "slotsPerResident (config ex_state) = 4"
  by code_simp+

lemma ex_state_uncheck:
  "picks (snd (cb_change ''Resident 1'' ''S1'' False ex_state)) ''Resident 1'' = Some []"
  by (simp add: cb_change_def ex_state_def)

text \<open>
  Witness: Resident 1 of the scenario ledger holds \<open>S1\<close> and is below the limit;
  checking \<open>S1\<close> again is silent and changes nothing, and unchecking it leaves a
  duplicate-free array. In script.js Resident 1 has selected two shifts of the
  registry; the pick array holds each once.
\<close>

theorem C7_reclaim_is_noop_witness:
  "picks ex_state ''Resident 1'' = Some [''S1''] \<and> ''S1'' \<in> set [''S1''] \<and> distinct [''S1'']
   \<and> length [''S1''] < slotsPerResident (config ex_state)
   \<and> cb_change ''Resident 1'' ''S1'' True ex_state = (None, ex_state)
   \<and> picks (snd (cb_change ''Resident 1'' ''S1'' False ex_state)) ''Resident 1'' = Some []
   \<and> userPicks ex_order ''Resident 1'' = Some [''2025-09-03-puerta'', ''2025-09-01-puerta'']
   \<and> distinct [''2025-09-03-puerta'', ''2025-09-01-puerta'']"
proof -
  note T = C7_reclaim_is_noop[of ex_state "''Resident 1''" "[''S1'']" "''S1''" False "\<lambda>_. None" "\<lambda>_. 0"
      "[AddShift ''2025-09-01'' ''Puerta'', AddShift ''2025-09-03'' ''Puerta'',
             Start ''Resident 1'', Select ''2025-09-03-puerta'', Select ''2025-09-01-puerta'']" 0]
  have a: "''S1'' \<in> set [''S1'']" "distinct [''S1'']"
    "length [''S1''] < slotsPerResident (config ex_state)"
    using ex_state_facts(2) by simp_all
  have p: "cb_change ''Resident 1'' ''S1'' True ex_state = (None, ex_state)"
    using T ex_state_facts(1) a by blast
  have q: "\<exists>arr'. picks (snd (cb_change ''Resident 1'' ''S1'' False ex_state)) ''Resident 1'' = Some arr'
             \<and> distinct arr'"
    using T ex_state_facts(1) a by blast
  have d: "distinct [''2025-09-03-puerta'', ''2025-09-01-puerta'']"
    using T ex_order_picks unfolding ex_order_def by blast
  show ?thesis using p q d a ex_state_facts(1) ex_state_uncheck ex_order_picks by blast
qed

section \<open>Who wins a contested shift\<close>

lemma resolve_loop_append:
  "resolve_loop rnd m (xs @ ys) n st =
     (case resolve_loop rnd m xs n st of
        (Some e, n', st') \<Rightarrow> (Some e, n', st')
      | (None, n', st') \<Rightarrow> resolve_loop rnd m ys n' st')"
proof (induction xs arbitrary: n st)
  case Nil
  then show ?case by simp
next
  case (Cons s xs)
  show ?case
  proof (cases "m (shift_id s)")
    case None
    then show ?thesis by simp
  next
    case (Some cs)
    show ?thesis
    proof (cases "length cs \<le> 1")
      case True
      then show ?thesis using Some Cons.IH by simp
    next
      case False
      obtain ranked n1 where srt: "js_sort (fair_cmp rnd st) cs n = (ranked, n1)"
        by (cases "js_sort (fair_cmp rnd st) cs n")
      obtain e st1 where rl: "remove_losers (shift_id s) (first_of ranked) cs st = (e, st1)"
        by (cases "remove_losers (shift_id s) (first_of ranked) cs st")
      show ?thesis
      proof (cases e)
        case None
        then show ?thesis using Some False srt rl Cons.IH by simp
      next
        case (Some err)
        then show ?thesis using \<open>m (shift_id s) = Some cs\<close> False srt rl by simp
      qed
    qed
  qed
qed

lemma pass_awards_least:
  assumes dec: "shifts st = pre @ s # post" and len: "length (whoIsAssigned st (shift_id s)) > 1"
  shows "\<exists>nk stk w n'.
           resolve_loop rnd (idToResidents st) pre n st = (None, nk, stk)
         \<and> shrunk st stk
         \<and> w \<in> set (whoIsAssigned st (shift_id s))
         \<and> (\<forall>c \<in> set (whoIsAssigned st (shift_id s)). lex_le (metric stk w) (metric stk c))
         \<and> resolveConflictsFair rnd n st
             = resolve_loop rnd (idToResidents st) post n'
                 (award (shift_id s) w (whoIsAssigned st (shift_id s)) stk)
         \<and> set (whoIsAssigned (snd (snd (resolveConflictsFair rnd n st))) (shift_id s)) \<subseteq> {w}"
proof -
  define cs where "cs = whoIsAssigned st (shift_id s)"
  define m where "m = idToResidents st"
  have look: "\<forall>t \<in> set (shifts st). m (shift_id t) = Some (whoIsAssigned st (shift_id t))"
    by (simp add: m_def idToResidents_shift)
  have lpre: "\<forall>t \<in> set pre. m (shift_id t) = Some (whoIsAssigned st (shift_id t))"
    and lpost: "\<forall>t \<in> set post. m (shift_id t) = Some (whoIsAssigned st (shift_id t))"
    and ms: "m (shift_id s) = Some cs"
    using look dec by (simp_all add: cs_def)
  from resolve_loop_post[OF shrunk_refl lpre, of rnd n]
  obtain nk stk where pre: "resolve_loop rnd m pre n st = (None, nk, stk)" "shrunk st stk" by blast
  have dom: "\<forall>r \<in> set cs. picks stk r \<noteq> None"
    using whoIsAssigned_in_dom shrunk_dom[OF pre(2)] by (auto simp: cs_def)
  from resolve_loop_step[where m=m and s=s and cs=cs and st=stk and rnd=rnd and ss=post and n=nk, OF ms _ dom] len
  obtain w n' where w: "w \<in> set cs" "\<forall>c \<in> set cs. lex_le (metric stk w) (metric stk c)"
    "resolve_loop rnd m (s # post) nk stk = resolve_loop rnd m post n' (award (shift_id s) w cs stk)"
    by (auto simp: cs_def)
  have whole: "resolveConflictsFair rnd n st = resolve_loop rnd m post n' (award (shift_id s) w cs stk)"
    unfolding resolveConflictsFair_def dec resolve_loop_append m_def[symmetric] pre using w(3) by simp
  define st1 where "st1 = award (shift_id s) w cs stk"
  have s1: "shrunk st st1" using shrunk_trans[OF pre(2) shrunk_award] by (simp add: st1_def)
  from resolve_loop_post[OF s1 lpost, of rnd n']
  obtain nf stf where fin: "resolve_loop rnd m post n' st1 = (None, nf, stf)" "shrunk st1 stf" by blast
  have "set (whoIsAssigned stk (shift_id s)) \<subseteq> set cs"
    using whoIsAssigned_shrunk[OF pre(2)] by (simp add: cs_def)
  then have "set (whoIsAssigned st1 (shift_id s)) \<subseteq> {w}"
    using whoIsAssigned_award[OF w(1), of "shift_id s" stk] by (auto simp: st1_def)
  then have "set (whoIsAssigned stf (shift_id s)) \<subseteq> {w}"
    using whoIsAssigned_shrunk[OF fin(2), of "shift_id s"] by blast
  moreover have "snd (snd (resolveConflictsFair rnd n st)) = stf"
    using whole fin(1) by (simp add: st1_def)
  ultimately show ?thesis using pre w(1,2) whole unfolding cs_def m_def by auto
qed

lemma lex_le_antisym_keys: "lex_le a b \<Longrightarrow> lex_le b a \<Longrightarrow> a = b"
  by (auto simp: lex_le_def prod_eq_iff)

lemma ex_state_metrics:
  "metric ex_state ''Resident 1'' = (1, 1)" "metric ex_state ''Resident 2'' = (3, 1)"
  by code_simp+

lemma ex_state_pass: "whoIsAssigned (snd (snd (resolveConflictsFair rnd n ex_state))) ''S1'' = [''Resident 1'']"
  by code_simp

lemma ex_globals_pass:
  "map assigned (g_shifts (snd (snd (resolveConflicts hostDay rnd n ex_globals))))
     = [[''Resident 1''], [''Resident 2''], [''Resident 2'']]"
  by code_simp

lemma ex_globals_keys:
  "key_monfri_first hostDay ex_globals ''Resident 1'' = (1, 1)"
  "key_monfri_first hostDay ex_globals ''Resident 2'' = (1, 3)"
  by code_simp+

text \<open>
  Claim C1, as the code has it. In the clean version, when the pass reaches a
  shift \<open>s\<close> that had more than one claimant at the start, it has completed the
  shifts before \<open>s\<close> without error, and it awards \<open>s\<close> to a claimant \<open>w\<close> whose key
  (total claims, Monday/Friday claims) is lexicographically least among the
  claimants in the ledger of that moment; every other claimant loses the shift
  and after the pass nobody but \<open>w\<close> holds it. In script.js, when every assigned
  name has a pick array, the pass completes and each contested shift keeps one of
  its assigned residents, one whose key (Monday/Friday claims, total claims), in
  this order and read from the globals the pass started from, is least (names
  being non-empty). In the scenario, where Resident 1 holds only the Monday shift
  \<open>S1\<close> and Resident 2 holds \<open>S1\<close> and two mid-week shifts (keys \<open>(1, 1)\<close> and
  \<open>(3, 1)\<close>: the undesirable count of Resident 2 cannot be \<open>0\<close>), Resident 1 wins
  \<open>S1\<close> in both variants.
\<close>

theorem C1_winner_has_least_key:
  "(shifts st = pre @ s # post \<and> length (whoIsAssigned st (shift_id s)) > 1 \<longrightarrow>
      (\<exists>nk stk w n'.
           resolve_loop rnd (idToResidents st) pre n st = (None, nk, stk)
         \<and> shrunk st stk
         \<and> w \<in> set (whoIsAssigned st (shift_id s))
         \<and> (\<forall>c \<in> set (whoIsAssigned st (shift_id s)). lex_le (metric stk w) (metric stk c))
         \<and> resolveConflictsFair rnd n st
             = resolve_loop rnd (idToResidents st) post n'
                 (award (shift_id s) w (whoIsAssigned st (shift_id s)) stk)
         \<and> set (whoIsAssigned (snd (snd (resolveConflictsFair rnd n st))) (shift_id s)) \<subseteq> {w}))
   \<and> ((\<forall>s \<in> set (g_shifts g). \<forall>u \<in> set (assigned s). userPicks g u \<noteq> None) \<longrightarrow>
         fst (resolveConflicts hostDay rnd n g) = None
       \<and> list_all2 (resolved_from hostDay g) (g_shifts g)
           (g_shifts (snd (snd (resolveConflicts hostDay rnd n g)))))
   \<and> metric ex_state ''Resident 1'' = (1, 1) \<and> metric ex_state ''Resident 2'' = (3, 1)
   \<and> whoIsAssigned ex_state ''S1'' = [''Resident 1'', ''Resident 2'']
   \<and> whoIsAssigned (snd (snd (resolveConflictsFair rnd n ex_state))) ''S1'' = [''Resident 1'']
   \<and> key_monfri_first hostDay ex_globals ''Resident 1'' = (1, 1)
   \<and> key_monfri_first hostDay ex_globals ''Resident 2'' = (1, 3)
   \<and> map assigned (g_shifts (snd (snd (resolveConflicts hostDay rnd n ex_globals))))
       = [[''Resident 1''], [''Resident 2''], [''Resident 2'']]"
proof -
  have 1: "shifts st = pre @ s # post \<and> length (whoIsAssigned st (shift_id s)) > 1 \<longrightarrow>
      (\<exists>nk stk w n'.
           resolve_loop rnd (idToResidents st) pre n st = (None, nk, stk)
         \<and> shrunk st stk
         \<and> w \<in> set (whoIsAssigned st (shift_id s))
         \<and> (\<forall>c \<in> set (whoIsAssigned st (shift_id s)). lex_le (metric stk w) (metric stk c))
         \<and> resolveConflictsFair rnd n st
             = resolve_loop rnd (idToResidents st) post n'
                 (award (shift_id s) w (whoIsAssigned st (shift_id s)) stk)
         \<and> set (whoIsAssigned (snd (snd (resolveConflictsFair rnd n st))) (shift_id s)) \<subseteq> {w})"
    using pass_awards_least[of st pre s post rnd n] by blast
  have 2: "fst (resolveConflicts hostDay rnd n g) = None
       \<and> list_all2 (resolved_from hostDay g) (g_shifts g)
           (g_shifts (snd (snd (resolveConflicts hostDay rnd n g))))"
    if h: "\<forall>s \<in> set (g_shifts g). \<forall>u \<in> set (assigned s). userPicks g u \<noteq> None"
  proof -
    from resolveConflicts_ok[OF h, of n hostDay rnd]
    obtain k ss' where r: "list_all2 (resolved_from hostDay g) (g_shifts g) ss'"
      "resolveConflicts hostDay rnd n g =
             (None, k, g\<lparr>g_shifts := ss',
                          userPicks := (\<lambda>u. map_option (\<lambda>ps. ps @ map shift_id (filter (\<lambda>s. u \<in> set (assigned s)) ss'))
                                               (if u \<in> set users then Some [] else userPicks g u))\<rparr>)"
      by blast
    show ?thesis using r(1) by (simp add: r(2))
  qed
  show ?thesis
    using 1 2 ex_state_metrics ex_state_contested ex_state_pass[of rnd n]
      ex_globals_keys[of hostDay] ex_globals_pass[of hostDay rnd n]
    by blast
qed

lemma ex_midweek_globals_facts:
  "map assigned (g_shifts ex_midweek_globals)
     = [[''Resident 1'', ''Resident 2''], [''Resident 1''], [''Resident 2''], [''Resident 2'']]"
  "key_monfri_first (\<lambda>_. None) ex_midweek_globals ''Resident 1'' = (1, 2)"
  "key_monfri_first (\<lambda>_. None) ex_midweek_globals ''Resident 2'' = (0, 3)"
  "map assigned (g_shifts (snd (snd (resolveConflicts (\<lambda>_. None) (\<lambda>_. 0) 0 ex_midweek_globals))))
     = [[''Resident 2''], [''Resident 1''], [''Resident 2''], [''Resident 2'']]"
  by code_simp+

text \<open>
  The claim as stated fails for script.js. Both residents claim the Wednesday
  shift \<open>W1\<close>. Resident 1 has two claims, one of them on a Monday; Resident 2 has
  three claims, none undesirable. \<open>key_monfri_first\<close> lists the undesirable count
  first: \<open>(1, 2)\<close> and \<open>(0, 3)\<close>. The key (total, undesirable) of Resident 1,
  \<open>(2, 1)\<close>, is the lexicographically smaller one, yet the shift goes to
  Resident 2.
\<close>

theorem C1_counterexample:
  "map assigned (g_shifts ex_midweek_globals)
     = [[''Resident 1'', ''Resident 2''], [''Resident 1''], [''Resident 2''], [''Resident 2'']]
   \<and> key_monfri_first (\<lambda>_. None) ex_midweek_globals ''Resident 1'' = (1, 2)
   \<and> key_monfri_first (\<lambda>_. None) ex_midweek_globals ''Resident 2'' = (0, 3)
   \<and> lex_le (2, 1) (3, 0) \<and> \<not> lex_le (3, 0) (2, 1)
   \<and> map assigned (g_shifts (snd (snd (resolveConflicts (\<lambda>_. None) (\<lambda>_. 0) 0 ex_midweek_globals))))
       = [[''Resident 2''], [''Resident 1''], [''Resident 2''], [''Resident 2'']]"
  using ex_midweek_globals_facts by (simp add: lex_le_def)

lemma ex_midweek_state_facts:
  "shifts ex_midweek_state = [] @ ex_shift ''W1'' ''2025-09-03'' #
     [ex_shift ''M1'' ''2025-09-01'', ex_shift ''W2'' ''2025-09-04'', ex_shift ''W3'' ''2025-09-10'']"
  "whoIsAssigned ex_midweek_state ''W1'' = [''Resident 1'', ''Resident 2'']"
  "metric ex_midweek_state ''Resident 1'' = (2, 1)"
  "metric ex_midweek_state ''Resident 2'' = (3, 0)"
  "whoIsAssigned (snd (snd (resolveConflictsFair (\<lambda>_. 0) 0 ex_midweek_state))) ''W1'' = [''Resident 1'']"
  "list_all (\<lambda>s. list_all (\<lambda>u. userPicks ex_midweek_globals u \<noteq> None) (assigned s)) (g_shifts ex_midweek_globals)"
  by code_simp+

text \<open>
  Witness: on the mid-week ledger the clean version awards \<open>W1\<close> to a claimant of
  least key, Resident 1 with \<open>(2, 1)\<close> against \<open>(3, 0)\<close>; script.js resolves the
  same ledger by its own key.
\<close>

theorem C1_winner_has_least_key_witness:
  "shifts ex_midweek_state = [] @ ex_shift ''W1'' ''2025-09-03'' #
     [ex_shift ''M1'' ''2025-09-01'', ex_shift ''W2'' ''2025-09-04'', ex_shift ''W3'' ''2025-09-10'']
   \<and> length (whoIsAssigned ex_midweek_state ''W1'') > 1
   \<and> metric ex_midweek_state ''Resident 1'' = (2, 1)
   \<and> metric ex_midweek_state ''Resident 2'' = (3, 0)
   \<and> (\<exists>w. w \<in> set (whoIsAssigned ex_midweek_state ''W1'')
          \<and> set (whoIsAssigned (snd (snd (resolveConflictsFair (\<lambda>_. 0) 0 ex_midweek_state))) ''W1'') \<subseteq> {w})
   \<and> whoIsAssigned (snd (snd (resolveConflictsFair (\<lambda>_. 0) 0 ex_midweek_state))) ''W1'' = [''Resident 1'']
   \<and> list_all (\<lambda>s. list_all (\<lambda>u. userPicks ex_midweek_globals u \<noteq> None) (assigned s)) (g_shifts ex_midweek_globals)
   \<and> list_all2 (resolved_from (\<lambda>_. None) ex_midweek_globals) (g_shifts ex_midweek_globals)
        (g_shifts (snd (snd (resolveConflicts (\<lambda>_. None) (\<lambda>_. 0) 0 ex_midweek_globals))))"
proof -
  have i: "shift_id (ex_shift ''W1'' ''2025-09-03'') = ''W1''" by (simp add: ex_shift_def)
  have l: "length (whoIsAssigned ex_midweek_state (shift_id (ex_shift ''W1'' ''2025-09-03''))) > 1"
    unfolding i ex_midweek_state_facts(2) by simp
  have h: "\<forall>s \<in> set (g_shifts ex_midweek_globals). \<forall>u \<in> set (assigned s). userPicks ex_midweek_globals u \<noteq> None"
    using ex_midweek_state_facts(6) by (simp add: list_all_iff)
  note T = C1_winner_has_least_key[of ex_midweek_state "[]" "ex_shift ''W1'' ''2025-09-03''"
      "[ex_shift ''M1'' ''2025-09-01'', ex_shift ''W2'' ''2025-09-04'', ex_shift ''W3'' ''2025-09-10'']"
      "\<lambda>_. 0" 0 ex_midweek_globals "\<lambda>_. None"]
  have a: "\<exists>w. w \<in> set (whoIsAssigned ex_midweek_state ''W1'')
          \<and> set (whoIsAssigned (snd (snd (resolveConflictsFair (\<lambda>_. 0) 0 ex_midweek_state))) ''W1'') \<subseteq> {w}"
    using T ex_midweek_state_facts(1) l unfolding i by blast
  have b: "list_all2 (resolved_from (\<lambda>_. None) ex_midweek_globals) (g_shifts ex_midweek_globals)
        (g_shifts (snd (snd (resolveConflicts (\<lambda>_. None) (\<lambda>_. 0) 0 ex_midweek_globals))))"
    using T h by blast
  show ?thesis using a b l ex_midweek_state_facts unfolding i by blast
qed

section \<open>Passes that draw no random number\<close>

lemma insert_sorted_mono:
  assumes "cmp_agrees cmp cmp'"
  shows "n \<le> snd (insert_sorted cmp x ys n)"
proof (induction ys arbitrary: n)
  case Nil
  then show ?case by simp
next
  case (Cons y ys)
  obtain c n1 where c: "cmp x y n = (c, n1)" by (cases "cmp x y n")
  have n1: "n \<le> n1" using assms c unfolding cmp_agrees_def by (metis snd_conv)
  obtain r n2 where r: "insert_sorted cmp x ys n1 = (r, n2)" by (cases "insert_sorted cmp x ys n1")
  have "n1 \<le> n2" using Cons.IH[of n1] r by simp
  then show ?case using c r n1 by (cases "c < 0") simp_all
qed

lemma insert_sorted_agree:
  assumes "cmp_agrees cmp cmp'" "snd (insert_sorted cmp x ys n) = n"
  shows "insert_sorted cmp' x ys n = insert_sorted cmp x ys n"
  using assms(2)
proof (induction ys arbitrary: n)
  case Nil
  then show ?case by simp
next
  case (Cons y ys)
  obtain c n1 where c: "cmp x y n = (c, n1)" by (cases "cmp x y n")
  have n1: "n \<le> n1" using assms(1) c unfolding cmp_agrees_def by (metis snd_conv)
  obtain r n2 where r: "insert_sorted cmp x ys n1 = (r, n2)" by (cases "insert_sorted cmp x ys n1")
  have n2: "n1 \<le> n2" using insert_sorted_mono[OF assms(1), of n1 x ys] r by simp
  have "n1 = n" using Cons.prems c r n1 n2 by (cases "c < 0") simp_all
  then have c': "cmp' x y n = (c, n)" using assms(1) c unfolding cmp_agrees_def by (metis snd_conv)
  show ?case
  proof (cases "c < 0")
    case True
    then show ?thesis using c c' \<open>n1 = n\<close> by simp
  next
    case False
    then have "n2 = n" using Cons.prems c r by simp
    then have "insert_sorted cmp' x ys n = insert_sorted cmp x ys n"
      using Cons.IH[of n] r \<open>n1 = n\<close> by simp
    then show ?thesis using False c c' \<open>n1 = n\<close> by simp
  qed
qed

lemma sort_loop_mono:
  assumes "cmp_agrees cmp cmp'"
  shows "n \<le> snd (sort_loop cmp xs acc n)"
proof (induction xs arbitrary: acc n)
  case Nil
  then show ?case by simp
next
  case (Cons x xs)
  obtain acc' n1 where i: "insert_sorted cmp x acc n = (acc', n1)" by (cases "insert_sorted cmp x acc n")
  have "n \<le> n1" using insert_sorted_mono[OF assms, of n x acc] i by simp
  moreover have "n1 \<le> snd (sort_loop cmp xs acc' n1)" using Cons.IH .
  ultimately show ?case using i by simp
qed

lemma sort_loop_agree:
  assumes "cmp_agrees cmp cmp'" "snd (sort_loop cmp xs acc n) = n"
  shows "sort_loop cmp' xs acc n = sort_loop cmp xs acc n"
  using assms(2)
proof (induction xs arbitrary: acc n)
  case Nil
  then show ?case by simp
next
  case (Cons x xs)
  obtain acc' n1 where i: "insert_sorted cmp x acc n = (acc', n1)" by (cases "insert_sorted cmp x acc n")
  have a: "n \<le> n1" using insert_sorted_mono[OF assms(1), of n x acc] i by simp
  have b: "n1 \<le> snd (sort_loop cmp xs acc' n1)" using sort_loop_mono[OF assms(1)] .
  have e: "snd (sort_loop cmp xs acc' n1) = n" using Cons.prems i by simp
  then have "n1 = n" using a b by simp
  then have "insert_sorted cmp' x acc n = (acc', n)"
    using insert_sorted_agree[OF assms(1), of x acc n] i by simp
  moreover have "sort_loop cmp' xs acc' n = sort_loop cmp xs acc' n"
    using Cons.IH[of acc' n] e \<open>n1 = n\<close> by simp
  ultimately show ?case using i \<open>n1 = n\<close> by simp
qed

lemma js_sort_mono: "cmp_agrees cmp cmp' \<Longrightarrow> n \<le> snd (js_sort cmp xs n)"
  unfolding js_sort_def by (rule sort_loop_mono)

lemma js_sort_agree:
  "cmp_agrees cmp cmp' \<Longrightarrow> snd (js_sort cmp xs n) = n \<Longrightarrow> js_sort cmp' xs n = js_sort cmp xs n"
  unfolding js_sort_def by (rule sort_loop_agree)

lemma fair_cmp_agrees: "cmp_agrees (fair_cmp rnd st) (fair_cmp rnd' st)"
  unfolding cmp_agrees_def fair_cmp_def Let_def by simp

lemma fill_cmp_agrees: "cmp_agrees (fill_cmp rnd st) (fill_cmp rnd' st)"
  unfolding cmp_agrees_def fill_cmp_def Let_def by simp

lemma resolve_loop_mono: "n \<le> fst (snd (resolve_loop rnd m ss n st))"
proof (induction ss arbitrary: n st)
  case Nil
  then show ?case by simp
next
  case (Cons s ss)
  show ?case
  proof (cases "m (shift_id s)")
    case None
    then show ?thesis by simp
  next
    case (Some cs)
    show ?thesis
    proof (cases "length cs \<le> 1")
      case True
      then show ?thesis using Some Cons.IH by simp
    next
      case False
      obtain ranked n1 where srt: "js_sort (fair_cmp rnd st) cs n = (ranked, n1)"
        by (cases "js_sort (fair_cmp rnd st) cs n")
      have n1: "n \<le> n1" using js_sort_mono[OF fair_cmp_agrees, of n rnd st cs] srt by simp
      obtain e st1 where rl: "remove_losers (shift_id s) (first_of ranked) cs st = (e, st1)"
        by (cases "remove_losers (shift_id s) (first_of ranked) cs st")
      show ?thesis
      proof (cases e)
        case None
        have "n1 \<le> fst (snd (resolve_loop rnd m ss n1 st1))" using Cons.IH .
        then show ?thesis using Some False srt rl None n1 by simp
      next
        case (Some err)
        then show ?thesis using \<open>m (shift_id s) = Some cs\<close> False srt rl n1 by simp
      qed
    qed
  qed
qed

lemma resolve_loop_agree:
  assumes "fst (snd (resolve_loop rnd m ss n st)) = n"
  shows "resolve_loop rnd' m ss n st = resolve_loop rnd m ss n st"
  using assms
proof (induction ss arbitrary: st)
  case Nil
  then show ?case by simp
next
  case (Cons s ss)
  show ?case
  proof (cases "m (shift_id s)")
    case None
    then show ?thesis by simp
  next
    case (Some cs)
    show ?thesis
    proof (cases "length cs \<le> 1")
      case True
      then show ?thesis using Some Cons by simp
    next
      case False
      obtain ranked n1 where srt: "js_sort (fair_cmp rnd st) cs n = (ranked, n1)"
        by (cases "js_sort (fair_cmp rnd st) cs n")
      have n1: "n \<le> n1" using js_sort_mono[OF fair_cmp_agrees, of n rnd st cs] srt by simp
      obtain e st1 where rl: "remove_losers (shift_id s) (first_of ranked) cs st = (e, st1)"
        by (cases "remove_losers (shift_id s) (first_of ranked) cs st")
      have fin: "n1 \<le> fst (snd (resolve_loop rnd m ss n1 st1))" by (rule resolve_loop_mono)
      have "n1 = n"
      proof (cases e)
        case None
        then have "fst (snd (resolve_loop rnd m ss n1 st1)) = n"
          using Cons.prems Some False srt rl by simp
        then show ?thesis using n1 fin by simp
      next
        case (Some err)
        then show ?thesis using Cons.prems \<open>m (shift_id s) = Some cs\<close> False srt rl by simp
      qed
      then have srt': "js_sort (fair_cmp rnd' st) cs n = (ranked, n)"
        using js_sort_agree[OF fair_cmp_agrees, of rnd st cs n rnd'] srt by simp
      show ?thesis
      proof (cases e)
        case None
        then have "fst (snd (resolve_loop rnd m ss n st1)) = n"
          using Cons.prems Some False srt rl \<open>n1 = n\<close> by simp
        then have "resolve_loop rnd' m ss n st1 = resolve_loop rnd m ss n st1" by (rule Cons.IH)
        then show ?thesis using Some False srt srt' rl None \<open>n1 = n\<close> by simp
      next
        case (Some err)
        then show ?thesis using \<open>m (shift_id s) = Some cs\<close> False srt srt' rl \<open>n1 = n\<close> by simp
      qed
    qed
  qed
qed

lemma resolveConflictsFair_agree:
  "fst (snd (resolveConflictsFair rnd n st)) = n \<Longrightarrow>
   resolveConflictsFair rnd' n st = resolveConflictsFair rnd n st"
  unfolding resolveConflictsFair_def by (rule resolve_loop_agree)

lemma choose_resident_mono:
  "choose_resident hostDay rnd g rs chosen n = Inr (w, n') \<Longrightarrow> n \<le> n'"
proof (induction rs arbitrary: chosen n)
  case Nil
  then show ?case by simp
next
  case (Cons res rest)
  have ih: "\<And>c k. choose_resident hostDay rnd g rest c k = Inr (w, n') \<Longrightarrow> k \<le> n'"
    using Cons.IH by blast
  have ihS: "\<And>c. choose_resident hostDay rnd g rest c (Suc n) = Inr (w, n') \<Longrightarrow> n \<le> n'"
    using ih Suc_leD by blast
  from Cons.prems show ?case
    by (auto split: option.splits sum.splits if_splits dest: ih ihS)
qed

lemma choose_resident_agree:
  "choose_resident hostDay rnd g rs chosen n = Inr (w, n) \<Longrightarrow>
   choose_resident hostDay rnd' g rs chosen n = Inr (w, n)"
proof (induction rs arbitrary: chosen)
  case Nil
  then show ?case by simp
next
  case (Cons res rest)
  have no: "\<And>c. choose_resident hostDay rnd g rest c (Suc n) \<noteq> Inr (w, n)"
    using choose_resident_mono by fastforce
  from Cons.prems show ?case
    by (auto split: option.splits sum.splits if_splits simp: no dest: Cons.IH)
qed

lemma resolve_shifts_mono:
  "resolve_shifts hostDay rnd g ss n = (e, n', ss') \<Longrightarrow> n \<le> n'"
proof (induction ss arbitrary: n e n' ss')
  case Nil
  then show ?case by simp
next
  case (Cons s ss)
  show ?case
  proof (cases "length (assigned s) \<le> 1")
    case True
    obtain e1 n1 ss1 where r: "resolve_shifts hostDay rnd g ss n = (e1, n1, ss1)"
      by (cases "resolve_shifts hostDay rnd g ss n") auto
    have "n \<le> n1" using Cons.IH[OF r] .
    then show ?thesis using Cons.prems True r by simp
  next
    case False
    show ?thesis
    proof (cases "choose_resident hostDay rnd g (assigned s) None n")
      case (Inl err)
      then show ?thesis using Cons.prems False by simp
    next
      case (Inr p)
      obtain chosen n1 where p: "p = (chosen, n1)" by (cases p)
      have a: "n \<le> n1" using choose_resident_mono Inr p by blast
      obtain e1 n2 ss1 where r: "resolve_shifts hostDay rnd g ss n1 = (e1, n2, ss1)"
        by (cases "resolve_shifts hostDay rnd g ss n1") auto
      have "n1 \<le> n2" using Cons.IH[OF r] .
      then show ?thesis using Cons.prems False Inr p r a by simp
    qed
  qed
qed

lemma resolve_shifts_agree:
  "resolve_shifts hostDay rnd g ss n = (None, n, ss') \<Longrightarrow>
   resolve_shifts hostDay rnd' g ss n = (None, n, ss')"
proof (induction ss arbitrary: ss')
  case Nil
  then show ?case by simp
next
  case (Cons s ss)
  show ?case
  proof (cases "length (assigned s) \<le> 1")
    case True
    obtain e1 n1 ss1 where r: "resolve_shifts hostDay rnd g ss n = (e1, n1, ss1)"
      by (cases "resolve_shifts hostDay rnd g ss n") auto
    have "e1 = None" "n1 = n" "ss' = s # ss1" using Cons.prems True r by simp_all
    then have "resolve_shifts hostDay rnd' g ss n = (None, n, ss1)" using Cons.IH r by simp
    then show ?thesis using True \<open>ss' = s # ss1\<close> by simp
  next
    case False
    show ?thesis
    proof (cases "choose_resident hostDay rnd g (assigned s) None n")
      case (Inl err)
      then show ?thesis using Cons.prems False by simp
    next
      case (Inr p)
      obtain chosen n1 where p: "p = (chosen, n1)" by (cases p)
      have a: "n \<le> n1" using choose_resident_mono Inr p by blast
      obtain e1 n2 ss1 where r: "resolve_shifts hostDay rnd g ss n1 = (e1, n2, ss1)"
        by (cases "resolve_shifts hostDay rnd g ss n1") auto
      have b: "n1 \<le> n2" using resolve_shifts_mono[OF r] .
      have res: "e1 = None" "n2 = n"
        "ss' = s\<lparr>assigned := (case chosen of None \<Rightarrow> [] | Some c \<Rightarrow> [c])\<rparr> # ss1"
        using Cons.prems False Inr p r by simp_all
      then have "n1 = n" using a b by simp
      then have c': "choose_resident hostDay rnd' g (assigned s) None n = Inr (chosen, n)"
        using choose_resident_agree Inr p by blast
      have "resolve_shifts hostDay rnd' g ss n = (None, n, ss1)"
        using Cons.IH r res \<open>n1 = n\<close> by simp
      then show ?thesis using False c' res(3) by simp
    qed
  qed
qed

lemma resolveConflicts_agree:
  assumes "resolveConflicts hostDay rnd n g = (None, n, g')"
  shows "resolveConflicts hostDay rnd' n g = (None, n, g')"
proof -
  obtain e1 n1 ss1 where r: "resolve_shifts hostDay rnd g (g_shifts g) n = (e1, n1, ss1)"
    by (cases "resolve_shifts hostDay rnd g (g_shifts g) n") auto
  have "e1 = None"
  proof (cases e1)
    case None
    then show ?thesis .
  next
    case (Some err)
    then show ?thesis using assms r by (simp add: resolveConflicts_def)
  qed
  moreover have "n1 = n" using assms r \<open>e1 = None\<close> by (simp add: resolveConflicts_def split: prod.splits)
  ultimately have "resolve_shifts hostDay rnd' g (g_shifts g) n = resolve_shifts hostDay rnd g (g_shifts g) n"
    using resolve_shifts_agree[of hostDay rnd g "g_shifts g" n ss1 rnd'] r by simp
  then show ?thesis using assms by (simp add: resolveConflicts_def)
qed

section \<open>Earlier removals reach the later shifts\<close>

lemma remove_losers_untouched:
  "remove_losers ident w cs st = (e, st') \<Longrightarrow>
   residents st' = residents st \<and> shifts st' = shifts st \<and> config st' = config st \<and>
   (\<forall>r i. i \<noteq> ident \<longrightarrow> (i \<in> set (picks_or_empty st' r)) = (i \<in> set (picks_or_empty st r)))"
proof (induction cs arbitrary: st)
  case Nil
  then show ?case by simp
next
  case (Cons c cs)
  show ?case
  proof (cases "Some c = w")
    case True
    then show ?thesis using Cons by simp
  next
    case False
    show ?thesis
    proof (cases "picks st c")
      case None
      then show ?thesis using Cons.prems False by simp
    next
      case (Some ps)
      define st1 where "st1 = st\<lparr>picks := (picks st)(c \<mapsto> filter (\<lambda>i. i \<noteq> ident) ps)\<rparr>"
      have "remove_losers ident w cs st1 = (e, st')" using Cons.prems False Some by (simp add: st1_def)
      from Cons.IH[OF this]
      have ih: "residents st' = residents st1" "shifts st' = shifts st1" "config st' = config st1"
        "\<forall>r i. i \<noteq> ident \<longrightarrow> (i \<in> set (picks_or_empty st' r)) = (i \<in> set (picks_or_empty st1 r))"
        by blast+
      have "(i \<in> set (picks_or_empty st1 r)) = (i \<in> set (picks_or_empty st r))" if "i \<noteq> ident" for r i
        using that Some by (cases "r = c") (auto simp: st1_def picks_or_empty_def)
      then show ?thesis using ih by (simp add: st1_def)
    qed
  qed
qed

lemma resolve_loop_untouched:
  "resolve_loop rnd m ss n st = (e, n', st') \<Longrightarrow>
   residents st' = residents st \<and> shifts st' = shifts st \<and>
   (\<forall>r i. i \<notin> shift_id ` set ss \<longrightarrow> (i \<in> set (picks_or_empty st' r)) = (i \<in> set (picks_or_empty st r)))"
proof (induction ss arbitrary: n st)
  case Nil
  then show ?case by simp
next
  case (Cons s ss)
  show ?case
  proof (cases "m (shift_id s)")
    case None
    then show ?thesis using Cons.prems by simp
  next
    case (Some cs)
    show ?thesis
    proof (cases "length cs \<le> 1")
      case True
      then have "resolve_loop rnd m ss n st = (e, n', st')" using Cons.prems Some by simp
      from Cons.IH[OF this] show ?thesis by simp
    next
      case False
      obtain ranked n1 where srt: "js_sort (fair_cmp rnd st) cs n = (ranked, n1)"
        by (cases "js_sort (fair_cmp rnd st) cs n")
      obtain e1 st1 where rl: "remove_losers (shift_id s) (first_of ranked) cs st = (e1, st1)"
        by (cases "remove_losers (shift_id s) (first_of ranked) cs st")
      note u1 = remove_losers_untouched[OF rl]
      show ?thesis
      proof (cases e1)
        case None
        then have "resolve_loop rnd m ss n1 st1 = (e, n', st')"
          using Cons.prems Some False srt rl by simp
        from Cons.IH[OF this] u1 show ?thesis by simp
      next
        case (Some err)
        then have "st' = st1" using Cons.prems \<open>m (shift_id s) = Some cs\<close> False srt rl by simp
        then show ?thesis using u1 by simp
      qed
    qed
  qed
qed

lemma whoIsAssigned_cong:
  assumes "residents st' = residents st"
    and "\<forall>r. (i \<in> set (picks_or_empty st' r)) = (i \<in> set (picks_or_empty st r))"
  shows "whoIsAssigned st' i = whoIsAssigned st i"
  using assms by (simp add: whoIsAssigned_def)

lemma resolve_loop_cong:
  "\<forall>t \<in> set ss. m' (shift_id t) = m (shift_id t) \<Longrightarrow>
   resolve_loop rnd m' ss n st = resolve_loop rnd m ss n st"
proof (induction ss arbitrary: n st)
  case Nil
  then show ?case by simp
next
  case (Cons s ss)
  have eq: "m' (shift_id s) = m (shift_id s)" using Cons.prems by simp
  have ih: "\<And>k t. resolve_loop rnd m' ss k t = resolve_loop rnd m ss k t"
    using Cons.IH Cons.prems by simp
  show ?case unfolding resolve_loop.simps eq ih ..
qed

lemma resolve_loop_all_skip:
  "\<forall>t \<in> set ss. \<exists>cs. m (shift_id t) = Some cs \<and> length cs \<le> 1 \<Longrightarrow>
   resolve_loop rnd m ss n st = (None, n, st)"
  by (induction ss) auto

lemma whoIsAssigned_distinct: "distinct (residents st) \<Longrightarrow> distinct (whoIsAssigned st i)"
  by (simp add: whoIsAssigned_def)

text \<open>
  With unique shift ids and resident names, a pass equals the pass started anew
  from the ledger that resolving any leading part of the registry leaves behind.
\<close>

lemma pass_restarts:
  assumes ids: "distinct (map shift_id (shifts st))" and res: "distinct (residents st)"
    and dec: "shifts st = pre @ post"
  shows "fst (resolve_loop rnd (idToResidents st) pre n st) = None"
    and "resolveConflictsFair rnd n st
         = resolveConflictsFair rnd (fst (snd (resolve_loop rnd (idToResidents st) pre n st)))
             (snd (snd (resolve_loop rnd (idToResidents st) pre n st)))"
proof -
  define m where "m = idToResidents st"
  have look: "\<forall>t \<in> set (shifts st). m (shift_id t) = Some (whoIsAssigned st (shift_id t))"
    by (simp add: m_def idToResidents_shift)
  have lpre: "\<forall>t \<in> set pre. m (shift_id t) = Some (whoIsAssigned st (shift_id t))"
    using look dec by simp
  from resolve_loop_post[OF shrunk_refl lpre, of rnd n]
  obtain n1 st1 where pre: "resolve_loop rnd m pre n st = (None, n1, st1)" "shrunk st st1"
    "\<forall>t \<in> set pre. card (set (whoIsAssigned st1 (shift_id t))) \<le> 1" by blast
  show "fst (resolve_loop rnd (idToResidents st) pre n st) = None"
    using pre(1) by (simp add: m_def)
  have f1: "residents st1 = residents st" "shifts st1 = shifts st"
    using shrunk_fields[OF pre(2)] by simp_all
  define m1 where "m1 = idToResidents st1"
  have look1: "\<forall>t \<in> set (shifts st). m1 (shift_id t) = Some (whoIsAssigned st1 (shift_id t))"
    using idToResidents_shift[of _ st1] f1(2) by (simp add: m1_def)
  have lhs: "resolveConflictsFair rnd n st = resolve_loop rnd m post n1 st1"
    unfolding resolveConflictsFair_def dec resolve_loop_append m_def[symmetric] pre(1) by simp
  have skip: "\<forall>t \<in> set pre. \<exists>cs. m1 (shift_id t) = Some cs \<and> length cs \<le> 1"
  proof
    fix t assume t: "t \<in> set pre"
    have "distinct (whoIsAssigned st1 (shift_id t))" using whoIsAssigned_distinct res f1(1) by simp
    then have "length (whoIsAssigned st1 (shift_id t)) = card (set (whoIsAssigned st1 (shift_id t)))"
      by (simp add: distinct_card)
    then have "length (whoIsAssigned st1 (shift_id t)) \<le> 1" using pre(3) t by simp
    moreover have "m1 (shift_id t) = Some (whoIsAssigned st1 (shift_id t))" using look1 dec t by simp
    ultimately show "\<exists>cs. m1 (shift_id t) = Some cs \<and> length cs \<le> 1" by blast
  qed
  have same: "\<forall>t \<in> set post. m1 (shift_id t) = m (shift_id t)"
  proof
    fix t assume t: "t \<in> set post"
    have "shift_id t \<notin> shift_id ` set pre" using ids dec t by auto
    then have "\<forall>r. (shift_id t \<in> set (picks_or_empty st1 r)) = (shift_id t \<in> set (picks_or_empty st r))"
      using resolve_loop_untouched[OF pre(1)] by blast
    then have "whoIsAssigned st1 (shift_id t) = whoIsAssigned st (shift_id t)"
      using whoIsAssigned_cong f1(1) by blast
    then show "m1 (shift_id t) = m (shift_id t)" using look look1 dec t by simp
  qed
  have "resolveConflictsFair rnd n1 st1 = resolve_loop rnd m1 (pre @ post) n1 st1"
    unfolding resolveConflictsFair_def f1(2) dec m1_def ..
  also have "\<dots> = resolve_loop rnd m1 post n1 st1"
    unfolding resolve_loop_append resolve_loop_all_skip[OF skip] by simp
  also have "\<dots> = resolve_loop rnd m post n1 st1" using resolve_loop_cong[OF same] .
  finally have "resolveConflictsFair rnd n1 st1 = resolveConflictsFair rnd n st" using lhs by simp
  then show "resolveConflictsFair rnd n st
         = resolveConflictsFair rnd (fst (snd (resolve_loop rnd (idToResidents st) pre n st)))
             (snd (snd (resolve_loop rnd (idToResidents st) pre n st)))"
    using pre(1) by (simp add: m_def)
qed

section \<open>Keys during a pass\<close>

lemma ex_stale_globals_facts:
  "map assigned (g_shifts (snd (snd (resolveConflicts (\<lambda>_. None) (\<lambda>_. 0) 0 ex_stale_globals))))
     = [[''Resident 1''], [''Resident 1''], [''Resident 2'']]"
  "userPicks ex_stale_globals ''Resident 1'' = Some [''S1'', ''S2'']"
  "userPicks ex_stale_globals ''Resident 2'' = Some [''S1'', ''S2'', ''S3'']"
  "userPicks ex_stale_released ''Resident 1'' = Some [''S1'', ''S2'']"
  "userPicks ex_stale_released ''Resident 2'' = Some [''S2'', ''S3'']"
  "map assigned (g_shifts ex_stale_released) = [[''Resident 1''], [''Resident 1'', ''Resident 2''], [''Resident 2'']]"
  "key_monfri_first (\<lambda>_. None) ex_stale_released ''Resident 1'' = (1, 2)"
  "key_monfri_first (\<lambda>_. None) ex_stale_released ''Resident 2'' = (0, 2)"
  "map assigned (g_shifts (snd (snd (resolveConflicts (\<lambda>_. None) (\<lambda>_. 0) 0 ex_stale_released))))
     = [[''Resident 1''], [''Resident 2''], [''Resident 2'']]"
  "fst (resolveConflicts (\<lambda>_. None) (\<lambda>_. 0) 0 ex_stale_globals) = None"
  "fst (snd (resolveConflicts (\<lambda>_. None) (\<lambda>_. 0) 0 ex_stale_globals)) = 0"
  "list_all (\<lambda>s. list_all (\<lambda>u. userPicks ex_stale_globals u \<noteq> None) (assigned s)) (g_shifts ex_stale_globals)"
  by code_simp+

lemma ex_stale_state_wf:
  "distinct (map shift_id (shifts ex_stale_state))"
  "distinct (residents ex_stale_state)"
  "shifts ex_stale_state = [ex_shift ''S1'' ''2025-09-01''] @ [ex_shift ''S2'' ''2025-09-03'', ex_shift ''S3'' ''2025-09-04'']"
  by (simp_all add: ex_stale_state_def ex_shift_def)

lemma ex_stale_state_pass:
  "(case resolveConflictsFair (\<lambda>_. 0) 0 ex_stale_state of
      (e, n, st') \<Rightarrow> (e, n, whoIsAssigned st' ''S1'', whoIsAssigned st' ''S2''))
   = (None, 0, [''Resident 1''], [''Resident 2''])"
  by code_simp

lemma ex_stale_state_mid:
  "(case resolve_loop (\<lambda>_. 0) (idToResidents ex_stale_state) [ex_shift ''S1'' ''2025-09-01''] 0 ex_stale_state of
      (e, n, st1) \<Rightarrow> (metric st1 ''Resident 1'', metric st1 ''Resident 2''))
   = ((2, 1), (2, 0))"
  by code_simp


lemma insert_sorted_by_date_last:
  assumes "\<forall>y \<in> set ys. shift_date y < shift_date x"
  shows "insert_sorted (\<lambda>a b n.
            (if shift_date a < shift_date b then - 1
             else if shift_date a > shift_date b then 1
             else real_of_int (lc (shift_type a) (shift_type b)), n)) x ys n = (ys @ [x], n)"
  using assms
proof (induction ys)
  case Nil
  then show ?case by simp
next
  case (Cons y ys)
  have "shift_date y < shift_date x" using Cons.prems by simp
  then have "\<not> shift_date x < shift_date y" by auto
  then show ?case using Cons \<open>shift_date y < shift_date x\<close> by simp
qed

lemma sort_loop_by_date_sorted:
  assumes "sorted_wrt (\<lambda>a b. shift_date a < shift_date b) (acc @ xs)"
  shows "sort_loop (\<lambda>a b n.
            (if shift_date a < shift_date b then - 1
             else if shift_date a > shift_date b then 1
             else real_of_int (lc (shift_type a) (shift_type b)), n)) xs acc n = (acc @ xs, n)"
  using assms
proof (induction xs arbitrary: acc)
  case Nil
  then show ?case by simp
next
  case (Cons x xs)
  have a: "\<forall>y \<in> set acc. shift_date y < shift_date x"
    using Cons.prems by (auto simp: sorted_wrt_append)
  have s: "sorted_wrt (\<lambda>a b. shift_date a < shift_date b) ((acc @ [x]) @ xs)"
    using Cons.prems by simp
  show ?case
    using Cons.IH[OF s] by (simp add: insert_sorted_by_date_last[OF a])
qed

text \<open>A shift array in strictly increasing date order is its own listing.\<close>

lemma sorted_shifts_of_sorted:
  assumes "sorted_wrt (\<lambda>a b. shift_date a < shift_date b) (shifts st)"
  shows "sorted_shifts lc st = shifts st"
  using sort_loop_by_date_sorted[of "[]" "shifts st" lc 0] assms
  by (simp add: sorted_shifts_def js_sort_def)

lemma ex_stale_sorted: "sorted_wrt (\<lambda>a b. shift_date a < shift_date b) (shifts ex_stale_state)"
  by code_simp

lemma ex_unsorted_array: "map shift_id (shifts ex_unsorted_state) = [''S2'', ''S1'', ''S3'', ''S4'', ''S5'']"
  by (simp add: ex_unsorted_state_def ex_shift_def)

lemma ex_unsorted_listing:
  "sorted_shifts lc ex_unsorted_state
     = [ex_shift ''S1'' ''2025-09-01'', ex_shift ''S2'' ''2025-09-03'', ex_shift ''S3'' ''2025-09-04'',
        ex_shift ''S4'' ''2025-09-05'', ex_shift ''S5'' ''2025-09-09'']"
  by (simp add: sorted_shifts_def js_sort_def ex_unsorted_state_def ex_shift_def)

lemma ex_unsorted_keys:
  "metric ex_unsorted_state ''Resident 1'' = (3, 2)"
  "metric ex_unsorted_state ''Resident 2'' = (4, 1)"
  by code_simp+

lemma ex_unsorted_array_pass:
  "(case resolveConflictsFair (\<lambda>_. 0) 0 ex_unsorted_state of
      (e, n, st') \<Rightarrow> (e, n, whoIsAssigned st' ''S1'', whoIsAssigned st' ''S2''))
   = (None, 0, [''Resident 2''], [''Resident 1''])"
  by code_simp

lemma ex_unsorted_listed_pass:
  "(case resolve_loop (\<lambda>_. 0) (idToResidents ex_unsorted_state)
           [ex_shift ''S1'' ''2025-09-01'', ex_shift ''S2'' ''2025-09-03'', ex_shift ''S3'' ''2025-09-04'',
            ex_shift ''S4'' ''2025-09-05'', ex_shift ''S5'' ''2025-09-09''] 0 ex_unsorted_state of
      (e, n, st') \<Rightarrow> (e, n, whoIsAssigned st' ''S1'', whoIsAssigned st' ''S2''))
   = (None, 0, [''Resident 1''], [''Resident 2''])"
  by code_simp

text \<open>Neither pass over \<open>ex_unsorted_state\<close> draws, so both are the same for every random source.\<close>

lemma ex_unsorted_array_any:
  "fst (resolveConflictsFair rnd 0 ex_unsorted_state) = None"
  "whoIsAssigned (snd (snd (resolveConflictsFair rnd 0 ex_unsorted_state))) ''S1'' = [''Resident 2'']"
  "whoIsAssigned (snd (snd (resolveConflictsFair rnd 0 ex_unsorted_state))) ''S2'' = [''Resident 1'']"
  "fst (snd (resolveConflictsFair rnd 0 ex_unsorted_state)) = 0"
proof -
  obtain e k st' where r: "resolveConflictsFair (\<lambda>_. 0) 0 ex_unsorted_state = (e, k, st')"
    by (cases "resolveConflictsFair (\<lambda>_. 0) 0 ex_unsorted_state") auto
  have p: "e = None" "k = 0" "whoIsAssigned st' ''S1'' = [''Resident 2'']"
    "whoIsAssigned st' ''S2'' = [''Resident 1'']"
    using ex_unsorted_array_pass unfolding r by simp_all
  have "fst (snd (resolveConflictsFair (\<lambda>_. 0) 0 ex_unsorted_state)) = 0" using r p(2) by simp
  from resolveConflictsFair_agree[OF this, of rnd]
  have eq: "resolveConflictsFair rnd 0 ex_unsorted_state = (e, k, st')" using r by simp
  show "fst (resolveConflictsFair rnd 0 ex_unsorted_state) = None"
    "whoIsAssigned (snd (snd (resolveConflictsFair rnd 0 ex_unsorted_state))) ''S1'' = [''Resident 2'']"
    "whoIsAssigned (snd (snd (resolveConflictsFair rnd 0 ex_unsorted_state))) ''S2'' = [''Resident 1'']"
    "fst (snd (resolveConflictsFair rnd 0 ex_unsorted_state)) = 0"
    using p by (simp_all add: eq)
qed

lemma ex_unsorted_listed_any:
  "fst (resolve_loop rnd (idToResidents ex_unsorted_state) (sorted_shifts lc ex_unsorted_state) 0
          ex_unsorted_state) = None"
  "whoIsAssigned (snd (snd (resolve_loop rnd (idToResidents ex_unsorted_state)
      (sorted_shifts lc ex_unsorted_state) 0 ex_unsorted_state))) ''S1'' = [''Resident 1'']"
  "whoIsAssigned (snd (snd (resolve_loop rnd (idToResidents ex_unsorted_state)
      (sorted_shifts lc ex_unsorted_state) 0 ex_unsorted_state))) ''S2'' = [''Resident 2'']"
  "fst (snd (resolve_loop rnd (idToResidents ex_unsorted_state)
      (sorted_shifts lc ex_unsorted_state) 0 ex_unsorted_state)) = 0"
proof -
  define ss where "ss = sorted_shifts lc ex_unsorted_state"
  have ss: "ss = [ex_shift ''S1'' ''2025-09-01'', ex_shift ''S2'' ''2025-09-03'', ex_shift ''S3'' ''2025-09-04'',
        ex_shift ''S4'' ''2025-09-05'', ex_shift ''S5'' ''2025-09-09'']"
    unfolding ss_def by (rule ex_unsorted_listing)
  obtain e k st' where r: "resolve_loop (\<lambda>_. 0) (idToResidents ex_unsorted_state) ss 0 ex_unsorted_state = (e, k, st')"
    by (cases "resolve_loop (\<lambda>_. 0) (idToResidents ex_unsorted_state) ss 0 ex_unsorted_state") auto
  have p: "e = None" "k = 0" "whoIsAssigned st' ''S1'' = [''Resident 1'']"
    "whoIsAssigned st' ''S2'' = [''Resident 2'']"
    using ex_unsorted_listed_pass r unfolding ss by simp_all
  have "fst (snd (resolve_loop (\<lambda>_. 0) (idToResidents ex_unsorted_state) ss 0 ex_unsorted_state)) = 0"
    using r p(2) by simp
  from resolve_loop_agree[OF this, of rnd]
  have eq: "resolve_loop rnd (idToResidents ex_unsorted_state) ss 0 ex_unsorted_state = (e, k, st')"
    using r by simp
  show "fst (resolve_loop rnd (idToResidents ex_unsorted_state) (sorted_shifts lc ex_unsorted_state) 0
          ex_unsorted_state) = None"
  "whoIsAssigned (snd (snd (resolve_loop rnd (idToResidents ex_unsorted_state)
      (sorted_shifts lc ex_unsorted_state) 0 ex_unsorted_state))) ''S1'' = [''Resident 1'']"
  "whoIsAssigned (snd (snd (resolve_loop rnd (idToResidents ex_unsorted_state)
      (sorted_shifts lc ex_unsorted_state) 0 ex_unsorted_state))) ''S2'' = [''Resident 2'']"
  "fst (snd (resolve_loop rnd (idToResidents ex_unsorted_state)
      (sorted_shifts lc ex_unsorted_state) 0 ex_unsorted_state)) = 0"
    using p unfolding ss_def[symmetric] by (simp_all add: eq)
qed


text \<open>
  Claim C3, as the code has it. In the clean version, with unique shift ids and
  resident names, the pass over the shift array equals the pass started anew from
  the ledger left by resolving any leading part \<open>pre\<close> of the array (which
  completes): every key compared for a later shift is read from a ledger in which
  the removals of the earlier shifts have taken place. The order followed is that
  of the array \<^verbatim>\<open>state.shifts\<close>, in which the shifts were added; it is the order of
  the listing (by date, then type) when the array is in strictly increasing date
  order, and then the pass is the loop over the listing. In script.js, when every
  assigned name has a pick array, each contested shift is resolved by the keys of
  the globals the pass started from: the pick arrays are rebuilt only after the
  last shift. A pass that ends with the draw count it started with (in script.js:
  and without error) returns the same result with any other source of random
  numbers.
\<close>

theorem C3_fresh_keys_in_array_order:
  "(distinct (map shift_id (shifts st)) \<and> distinct (residents st) \<and> shifts st = pre @ post \<longrightarrow>
       fst (resolve_loop rnd (idToResidents st) pre n st) = None
     \<and> resolveConflictsFair rnd n st
         = resolveConflictsFair rnd (fst (snd (resolve_loop rnd (idToResidents st) pre n st)))
             (snd (snd (resolve_loop rnd (idToResidents st) pre n st))))
   \<and> (fst (snd (resolveConflictsFair rnd n st)) = n \<longrightarrow>
         resolveConflictsFair rnd' n st = resolveConflictsFair rnd n st)
   \<and> (sorted_wrt (\<lambda>a b. shift_date a < shift_date b) (shifts st) \<longrightarrow>
         sorted_shifts lc st = shifts st
       \<and> resolveConflictsFair rnd n st = resolve_loop rnd (idToResidents st) (sorted_shifts lc st) n st)
   \<and> ((\<forall>s \<in> set (g_shifts g). \<forall>u \<in> set (assigned s). userPicks g u \<noteq> None) \<longrightarrow>
         list_all2 (resolved_from hostDay g) (g_shifts g)
           (g_shifts (snd (snd (resolveConflicts hostDay rnd n g)))))
   \<and> (fst (resolveConflicts hostDay rnd n g) = None \<and> fst (snd (resolveConflicts hostDay rnd n g)) = n \<longrightarrow>
         resolveConflicts hostDay rnd' n g = resolveConflicts hostDay rnd n g)"
proof -
  have 1: "fst (resolve_loop rnd (idToResidents st) pre n st) = None
     \<and> resolveConflictsFair rnd n st
         = resolveConflictsFair rnd (fst (snd (resolve_loop rnd (idToResidents st) pre n st)))
             (snd (snd (resolve_loop rnd (idToResidents st) pre n st)))"
    if "distinct (map shift_id (shifts st))" "distinct (residents st)" "shifts st = pre @ post"
    using pass_restarts[OF that, of rnd n] by blast
  have 2: "resolveConflictsFair rnd' n st = resolveConflictsFair rnd n st"
    if "fst (snd (resolveConflictsFair rnd n st)) = n"
    using resolveConflictsFair_agree[OF that] .
  have 3: "list_all2 (resolved_from hostDay g) (g_shifts g)
           (g_shifts (snd (snd (resolveConflicts hostDay rnd n g))))"
    if h: "\<forall>s \<in> set (g_shifts g). \<forall>u \<in> set (assigned s). userPicks g u \<noteq> None"
  proof -
    from resolveConflicts_ok[OF h, of n hostDay rnd]
    obtain k ss' where r: "list_all2 (resolved_from hostDay g) (g_shifts g) ss'"
      "resolveConflicts hostDay rnd n g =
             (None, k, g\<lparr>g_shifts := ss',
                          userPicks := (\<lambda>u. map_option (\<lambda>ps. ps @ map shift_id (filter (\<lambda>s. u \<in> set (assigned s)) ss'))
                                               (if u \<in> set users then Some [] else userPicks g u))\<rparr>)"
      by blast
    show ?thesis using r(1) by (simp add: r(2))
  qed
  have 4: "resolveConflicts hostDay rnd' n g = resolveConflicts hostDay rnd n g"
    if "fst (resolveConflicts hostDay rnd n g) = None" "fst (snd (resolveConflicts hostDay rnd n g)) = n"
  proof -
    have "resolveConflicts hostDay rnd n g = (None, n, snd (snd (resolveConflicts hostDay rnd n g)))"
      using that by (metis prod.collapse)
    from resolveConflicts_agree[OF this, of rnd'] this show ?thesis by simp
  qed
  have 5: "sorted_shifts lc st = shifts st
       \<and> resolveConflictsFair rnd n st = resolve_loop rnd (idToResidents st) (sorted_shifts lc st) n st"
    if "sorted_wrt (\<lambda>a b. shift_date a < shift_date b) (shifts st)"
    unfolding sorted_shifts_of_sorted[OF that] resolveConflictsFair_def by simp
  show ?thesis using 1 2 3 4 5 by blast
qed

text \<open>
  The claim as stated fails on both counts. The keys in script.js: resolving \<open>S1\<close>
  takes it from Resident 2, whose claims are then \<open>S2\<close> and \<open>S3\<close>, none on a
  Monday or Friday: key \<open>(0, 2)\<close> against \<open>(1, 2)\<close> of Resident 1, as
  \<open>ex_stale_released\<close> shows, where the same removal was made by hand and the pass
  gives \<open>S2\<close> to Resident 2. In the pass over \<open>ex_stale_globals\<close>, however, \<open>S2\<close>
  goes to Resident 1: the keys compared for \<open>S2\<close> are still those of the start.
  The order in the clean version: in \<open>ex_unsorted_state\<close> the array has \<open>S2\<close> before
  \<open>S1\<close> and the listing \<open>S1\<close> before \<open>S2\<close>. The pass follows the array: \<open>S2\<close> is
  resolved with the keys \<open>(3, 2)\<close> and \<open>(4, 1)\<close> and goes to Resident 1, then \<open>S1\<close>
  with \<open>(3, 2)\<close> and \<open>(3, 1)\<close> to Resident 2. The same loop over the listing gives
  \<open>S1\<close> to Resident 1 and \<open>S2\<close> to Resident 2. Neither draws a random number
  (the draw count stays \<open>0\<close>).
\<close>

theorem C3_counterexample:
  "userPicks ex_stale_globals ''Resident 1'' = Some [''S1'', ''S2'']
   \<and> userPicks ex_stale_globals ''Resident 2'' = Some [''S1'', ''S2'', ''S3'']
   \<and> map assigned (g_shifts (snd (snd (resolveConflicts (\<lambda>_. None) (\<lambda>_. 0) 0 ex_stale_globals))))
       = [[''Resident 1''], [''Resident 1''], [''Resident 2'']]
   \<and> userPicks ex_stale_released ''Resident 1'' = Some [''S1'', ''S2'']
   \<and> userPicks ex_stale_released ''Resident 2'' = Some [''S2'', ''S3'']
   \<and> map assigned (g_shifts ex_stale_released)
       = [[''Resident 1''], [''Resident 1'', ''Resident 2''], [''Resident 2'']]
   \<and> key_monfri_first (\<lambda>_. None) ex_stale_released ''Resident 1'' = (1, 2)
   \<and> key_monfri_first (\<lambda>_. None) ex_stale_released ''Resident 2'' = (0, 2)
   \<and> map assigned (g_shifts (snd (snd (resolveConflicts (\<lambda>_. None) (\<lambda>_. 0) 0 ex_stale_released))))
       = [[''Resident 1''], [''Resident 2''], [''Resident 2'']]
   \<and> map shift_id (shifts ex_unsorted_state) = [''S2'', ''S1'', ''S3'', ''S4'', ''S5'']
   \<and> map shift_id (sorted_shifts (\<lambda>a b. 0) ex_unsorted_state) = [''S1'', ''S2'', ''S3'', ''S4'', ''S5'']
   \<and> metric ex_unsorted_state ''Resident 1'' = (3, 2)
   \<and> metric ex_unsorted_state ''Resident 2'' = (4, 1)
   \<and> fst (resolveConflictsFair (\<lambda>_. 0) 0 ex_unsorted_state) = None
   \<and> fst (snd (resolveConflictsFair (\<lambda>_. 0) 0 ex_unsorted_state)) = 0
   \<and> whoIsAssigned (snd (snd (resolveConflictsFair (\<lambda>_. 0) 0 ex_unsorted_state))) ''S1'' = [''Resident 2'']
   \<and> whoIsAssigned (snd (snd (resolveConflictsFair (\<lambda>_. 0) 0 ex_unsorted_state))) ''S2'' = [''Resident 1'']
   \<and> fst (snd (resolve_loop (\<lambda>_. 0) (idToResidents ex_unsorted_state)
          (sorted_shifts (\<lambda>a b. 0) ex_unsorted_state) 0 ex_unsorted_state)) = 0
   \<and> whoIsAssigned (snd (snd (resolve_loop (\<lambda>_. 0) (idToResidents ex_unsorted_state)
          (sorted_shifts (\<lambda>a b. 0) ex_unsorted_state) 0 ex_unsorted_state))) ''S1'' = [''Resident 1'']
   \<and> whoIsAssigned (snd (snd (resolve_loop (\<lambda>_. 0) (idToResidents ex_unsorted_state)
          (sorted_shifts (\<lambda>a b. 0) ex_unsorted_state) 0 ex_unsorted_state))) ''S2'' = [''Resident 2'']"
proof -
  have l: "map shift_id (sorted_shifts (\<lambda>a b. 0) ex_unsorted_state) = [''S1'', ''S2'', ''S3'', ''S4'', ''S5'']"
    unfolding ex_unsorted_listing by (simp add: ex_shift_def)
  have A: "userPicks ex_stale_globals ''Resident 1'' = Some [''S1'', ''S2'']
   \<and> userPicks ex_stale_globals ''Resident 2'' = Some [''S1'', ''S2'', ''S3'']
   \<and> map assigned (g_shifts (snd (snd (resolveConflicts (\<lambda>_. None) (\<lambda>_. 0) 0 ex_stale_globals))))
       = [[''Resident 1''], [''Resident 1''], [''Resident 2'']]
   \<and> userPicks ex_stale_released ''Resident 1'' = Some [''S1'', ''S2'']
   \<and> userPicks ex_stale_released ''Resident 2'' = Some [''S2'', ''S3'']
   \<and> map assigned (g_shifts ex_stale_released)
       = [[''Resident 1''], [''Resident 1'', ''Resident 2''], [''Resident 2'']]
   \<and> key_monfri_first (\<lambda>_. None) ex_stale_released ''Resident 1'' = (1, 2)
   \<and> key_monfri_first (\<lambda>_. None) ex_stale_released ''Resident 2'' = (0, 2)
   \<and> map assigned (g_shifts (snd (snd (resolveConflicts (\<lambda>_. None) (\<lambda>_. 0) 0 ex_stale_released))))
       = [[''Resident 1''], [''Resident 2''], [''Resident 2'']]"
    using ex_stale_globals_facts(1-9) by blast
  show ?thesis
    by (simp only: A simp_thms ex_unsorted_array l ex_unsorted_keys ex_unsorted_array_any
          ex_unsorted_listed_any)
qed

text \<open>
  Witness: on the same ledger the clean version gives \<open>S2\<close> to Resident 2, whose
  key after the loss of \<open>S1\<close> is \<open>(2, 0)\<close> against \<open>(2, 1)\<close>; the pass equals the
  pass restarted after \<open>S1\<close>, draws nothing and is the same under another random
  source; its array is in date order, so the pass is the loop over the listing.
  The pass of script.js over its ledger draws nothing either.
\<close>

theorem C3_fresh_keys_in_array_order_witness:
  "distinct (map shift_id (shifts ex_stale_state)) \<and> distinct (residents ex_stale_state)
   \<and> shifts ex_stale_state
       = [ex_shift ''S1'' ''2025-09-01''] @ [ex_shift ''S2'' ''2025-09-03'', ex_shift ''S3'' ''2025-09-04'']
   \<and> resolveConflictsFair (\<lambda>_. 0) 0 ex_stale_state
       = resolveConflictsFair (\<lambda>_. 0)
           (fst (snd (resolve_loop (\<lambda>_. 0) (idToResidents ex_stale_state) [ex_shift ''S1'' ''2025-09-01''] 0 ex_stale_state)))
           (snd (snd (resolve_loop (\<lambda>_. 0) (idToResidents ex_stale_state) [ex_shift ''S1'' ''2025-09-01''] 0 ex_stale_state)))
   \<and> metric (snd (snd (resolve_loop (\<lambda>_. 0) (idToResidents ex_stale_state) [ex_shift ''S1'' ''2025-09-01''] 0 ex_stale_state)))
        ''Resident 1'' = (2, 1)
   \<and> metric (snd (snd (resolve_loop (\<lambda>_. 0) (idToResidents ex_stale_state) [ex_shift ''S1'' ''2025-09-01''] 0 ex_stale_state)))
        ''Resident 2'' = (2, 0)
   \<and> whoIsAssigned (snd (snd (resolveConflictsFair (\<lambda>_. 0) 0 ex_stale_state))) ''S2'' = [''Resident 2'']
   \<and> fst (snd (resolveConflictsFair (\<lambda>_. 0) 0 ex_stale_state)) = 0
   \<and> resolveConflictsFair (\<lambda>_. 3 / 4) 0 ex_stale_state = resolveConflictsFair (\<lambda>_. 0) 0 ex_stale_state
   \<and> sorted_wrt (\<lambda>a b. shift_date a < shift_date b) (shifts ex_stale_state)
   \<and> sorted_shifts (\<lambda>a b. 0) ex_stale_state = shifts ex_stale_state
   \<and> resolveConflictsFair (\<lambda>_. 0) 0 ex_stale_state
       = resolve_loop (\<lambda>_. 0) (idToResidents ex_stale_state) (sorted_shifts (\<lambda>a b. 0) ex_stale_state) 0 ex_stale_state
   \<and> list_all (\<lambda>s. list_all (\<lambda>u. userPicks ex_stale_globals u \<noteq> None) (assigned s)) (g_shifts ex_stale_globals)
   \<and> list_all2 (resolved_from (\<lambda>_. None) ex_stale_globals) (g_shifts ex_stale_globals)
        (g_shifts (snd (snd (resolveConflicts (\<lambda>_. None) (\<lambda>_. 0) 0 ex_stale_globals))))
   \<and> fst (resolveConflicts (\<lambda>_. None) (\<lambda>_. 0) 0 ex_stale_globals) = None
   \<and> fst (snd (resolveConflicts (\<lambda>_. None) (\<lambda>_. 0) 0 ex_stale_globals)) = 0
   \<and> resolveConflicts (\<lambda>_. None) (\<lambda>_. 3 / 4) 0 ex_stale_globals
       = resolveConflicts (\<lambda>_. None) (\<lambda>_. 0) 0 ex_stale_globals"
proof -
  obtain e k st' where r: "resolveConflictsFair (\<lambda>_. 0) 0 ex_stale_state = (e, k, st')"
    by (cases "resolveConflictsFair (\<lambda>_. 0) 0 ex_stale_state") auto
  have p: "k = 0" "whoIsAssigned st' ''S2'' = [''Resident 2'']"
    using ex_stale_state_pass unfolding r by simp_all
  have p': "fst (snd (resolveConflictsFair (\<lambda>_. 0) 0 ex_stale_state)) = 0"
    "whoIsAssigned (snd (snd (resolveConflictsFair (\<lambda>_. 0) 0 ex_stale_state))) ''S2'' = [''Resident 2'']"
    using p r by simp_all
  obtain e1 k1 st1 where m: "resolve_loop (\<lambda>_. 0) (idToResidents ex_stale_state) [ex_shift ''S1'' ''2025-09-01''] 0 ex_stale_state = (e1, k1, st1)"
    by (cases "resolve_loop (\<lambda>_. 0) (idToResidents ex_stale_state) [ex_shift ''S1'' ''2025-09-01''] 0 ex_stale_state") auto
  have q: "metric st1 ''Resident 1'' = (2, 1)" "metric st1 ''Resident 2'' = (2, 0)"
    using ex_stale_state_mid unfolding m by simp_all
  have q': "metric (snd (snd (resolve_loop (\<lambda>_. 0) (idToResidents ex_stale_state) [ex_shift ''S1'' ''2025-09-01''] 0 ex_stale_state)))
        ''Resident 1'' = (2, 1)"
    "metric (snd (snd (resolve_loop (\<lambda>_. 0) (idToResidents ex_stale_state) [ex_shift ''S1'' ''2025-09-01''] 0 ex_stale_state)))
        ''Resident 2'' = (2, 0)"
    using q m by simp_all
  have h: "\<forall>s \<in> set (g_shifts ex_stale_globals). \<forall>u \<in> set (assigned s). userPicks ex_stale_globals u \<noteq> None"
    using ex_stale_globals_facts(12) by (simp add: list_all_iff)
  note T = C3_fresh_keys_in_array_order[of ex_stale_state "[ex_shift ''S1'' ''2025-09-01'']"
      "[ex_shift ''S2'' ''2025-09-03'', ex_shift ''S3'' ''2025-09-04'']" "\<lambda>_. 0" 0 "\<lambda>_. 3 / 4"
      "\<lambda>a b. 0" ex_stale_globals "\<lambda>_. None"]
  show ?thesis
    using T ex_stale_state_wf p' q' h ex_stale_globals_facts(10,11,12) ex_stale_sorted
    by blast
qed

section \<open>The random fill\<close>

lemma try_next_find:
  assumes "\<forall>c \<in> set cands. picks st c \<noteq> None"
  shows "try_next ident cands st =
           (None, case find (has_room st ident) cands of None \<Rightarrow> st | Some c \<Rightarrow> give ident c st)"
  using assms
proof (induction cands)
  case Nil
  then show ?case by simp
next
  case (Cons cand rest)
  obtain ps where ps: "picks st cand = Some ps" using Cons.prems by auto
  have poe: "picks_or_empty st cand = ps" using ps by (simp add: picks_or_empty_def)
  show ?case
  proof (cases "has_room st ident cand")
    case True
    then have "ident \<notin> set ps \<and> length ps < slotsPerResident (config st)"
      by (simp add: has_room_def poe)
    then have "try_next ident (cand # rest) st = (None, st\<lparr>picks := (picks st)(cand \<mapsto> ps @ [ident])\<rparr>)"
      using ps by simp
    then show ?thesis using True by (simp add: give_def poe)
  next
    case False
    then have "\<not> (ident \<notin> set ps \<and> length ps < slotsPerResident (config st))"
      by (simp add: has_room_def poe)
    then have "try_next ident (cand # rest) st = try_next ident rest st" using ps by auto
    then show ?thesis using False Cons by simp
  qed
qed

lemma assign_one_find:
  assumes hy: "hydrated st" and ne: "residents st \<noteq> []"
    and srt: "js_sort (fill_cmp rnd st) (residents st) n = (ranked, n')"
  shows "assign_one rnd s n st =
           (None, n', case find (has_room st (shift_id s)) ranked of
                        None \<Rightarrow> st | Some c \<Rightarrow> give (shift_id s) c st)"
proof -
  have set_r: "set ranked = set (residents st)"
    using set_js_sort[of "fill_cmp rnd st" "residents st" n] srt by simp
  have "length ranked = length (residents st)"
    using length_js_sort[of "fill_cmp rnd st" "residents st" n] srt by simp
  then obtain c rest where r: "ranked = c # rest" using ne by (cases ranked) auto
  have dom: "\<forall>x \<in> set ranked. picks st x \<noteq> None"
    using hy set_r by (simp add: hydrated_def list_all_iff)
  obtain ps where ps: "picks st c = Some ps" using dom r by auto
  have poe: "picks_or_empty st c = ps" using ps by (simp add: picks_or_empty_def)
  show ?thesis
  proof (cases "has_room st (shift_id s) c")
    case True
    then have "shift_id s \<notin> set ps \<and> length ps < slotsPerResident (config st)"
      by (simp add: has_room_def poe)
    then have "assign_one rnd s n st = (None, n', st\<lparr>picks := (picks st)(c \<mapsto> ps @ [shift_id s])\<rparr>)"
      using srt r ps by (simp add: assign_one_def)
    then show ?thesis using True r by (simp add: give_def poe)
  next
    case False
    then have no: "\<not> (shift_id s \<notin> set ps \<and> length ps < slotsPerResident (config st))"
      by (simp add: has_room_def poe)
    have dr: "\<forall>x \<in> set rest. picks st x \<noteq> None" using dom r by simp
    have "assign_one rnd s n st = (case try_next (shift_id s) rest st of (e, st') \<Rightarrow> (e, n', st'))"
      using srt r ps no by (auto simp: assign_one_def)
    then show ?thesis using False r by (simp add: try_next_find[OF dr])
  qed
qed

lemma find_sorted_least:
  assumes "sorted_wrt R xs" "find P xs = Some c" "d \<in> set xs" "P d" "\<And>x. R x x"
  shows "R c d"
  using assms(1,2,3)
proof (induction xs)
  case Nil
  then show ?case by simp
next
  case (Cons x xs)
  show ?case
  proof (cases "P x")
    case True
    then have "c = x" using Cons.prems(2) by simp
    then show ?thesis using Cons.prems(1,3) assms(5) by auto
  next
    case False
    then have "d \<in> set xs" using Cons.prems(3) assms(4) by auto
    then show ?thesis using Cons False by simp
  qed
qed




text \<open>One empty shift: the ranking, and who receives the shift.\<close>

lemma assign_one_ok:
  assumes hy: "hydrated st" and ne: "residents st \<noteq> []"
  shows "\<exists>ranked n'.
           js_sort (fill_cmp rnd st) (residents st) n = (ranked, n')
         \<and> mset ranked = mset (residents st)
         \<and> sorted_wrt (\<lambda>a b. lex_le (metric st a) (metric st b)) ranked
         \<and> assign_one rnd s n st =
             (None, n', case find (has_room st (shift_id s)) ranked of
                          None \<Rightarrow> st | Some c \<Rightarrow> give (shift_id s) c st)
         \<and> (\<forall>c. find (has_room st (shift_id s)) ranked = Some c \<longrightarrow>
               c \<in> set (residents st) \<and> has_room st (shift_id s) c
             \<and> (\<forall>d \<in> set (residents st). has_room st (shift_id s) d \<longrightarrow>
                   lex_le (metric st c) (metric st d)))"
proof -
  obtain ranked n' where srt: "js_sort (fill_cmp rnd st) (residents st) n = (ranked, n')"
    by (cases "js_sort (fill_cmp rnd st) (residents st) n")
  have ms: "mset ranked = mset (residents st)"
    using mset_js_sort[of "fill_cmp rnd st" "residents st" n] srt by simp
  have set_r: "set ranked = set (residents st)" using ms by (metis set_mset_mset)
  have so: "sorted_wrt (\<lambda>a b. lex_le (metric st a) (metric st b)) ranked"
    using sorted_js_sort[OF fill_cmp_respects[of rnd st], of "residents st" n] srt by simp
  have least: "c \<in> set (residents st) \<and> has_room st (shift_id s) c
             \<and> (\<forall>d \<in> set (residents st). has_room st (shift_id s) d \<longrightarrow>
                   lex_le (metric st c) (metric st d))"
    if f: "find (has_room st (shift_id s)) ranked = Some c" for c
  proof -
    have "c \<in> set ranked \<and> has_room st (shift_id s) c" using find_Some_mem[OF f] .
    moreover have "lex_le (metric st c) (metric st d)"
      if "d \<in> set (residents st)" "has_room st (shift_id s) d" for d
      using find_sorted_least[of "\<lambda>a b. lex_le (metric st a) (metric st b)" ranked
              "has_room st (shift_id s)" c d, OF so f] that set_r lex_le_refl by blast
    ultimately show ?thesis using set_r by blast
  qed
  show ?thesis using srt ms so assign_one_find[OF hy ne srt] least by blast
qed


lemma assign_loop_full:
  assumes "hydrated st" "residents st \<noteq> []"
    and "\<forall>r \<in> set (residents st). length (picks_or_empty st r) \<ge> slotsPerResident (config st)"
  shows "\<exists>n'. assign_loop rnd ss n st = (None, n', st)"
proof (induction ss arbitrary: n)
  case Nil
  then show ?case by simp
next
  case (Cons s ss)
  from assign_one_ok[OF assms(1,2), of rnd n s]
  obtain ranked n1 where a: "mset ranked = mset (residents st)"
    "assign_one rnd s n st =
             (None, n1, case find (has_room st (shift_id s)) ranked of
                          None \<Rightarrow> st | Some c \<Rightarrow> give (shift_id s) c st)"
    by blast
  have set_r: "set ranked = set (residents st)" using a(1) by (metis set_mset_mset)
  have "find (has_room st (shift_id s)) ranked = None"
  proof (cases "find (has_room st (shift_id s)) ranked")
    case None
    then show ?thesis .
  next
    case (Some c)
    then have "c \<in> set ranked" "has_room st (shift_id s) c" using find_Some_mem[OF Some] by simp_all
    then show ?thesis using assms(3) set_r by (auto simp: has_room_def)
  qed
  then have "assign_one rnd s n st = (None, n1, st)" using a(2) by simp
  then show ?case using Cons.IH[of n1] by simp
qed

lemma within_quota_bound:
  assumes "within_quota st" "residents st' = residents st" "config st' = config st"
    and "\<forall>r. length (picks_or_empty st' r) \<le> max (length (picks_or_empty st r)) (slotsPerResident (config st))"
  shows "within_quota st'"
proof -
  have "length (picks_or_empty st' r) \<le> slotsPerResident (config st)" if "r \<in> set (residents st)" for r
  proof -
    have "length (picks_or_empty st r) \<le> slotsPerResident (config st)"
      using assms(1) that by (simp add: within_quota_def list_all_iff)
    then have "max (length (picks_or_empty st r)) (slotsPerResident (config st)) = slotsPerResident (config st)"
      by simp
    then show ?thesis using assms(4)[rule_format, of r] by simp
  qed
  then show ?thesis using assms(2,3) by (simp add: within_quota_def list_all_iff)
qed

lemma randomAssign_is_loop:
  "randomAssignRemaining rnd n st =
     assign_loop rnd (filter (\<lambda>s. length (whoIsAssigned st (shift_id s)) = 0) (shifts st)) n st"
  by (simp add: randomAssignRemaining_def Let_def)

lemma randomAssign_no_residents:
  assumes "residents st = []" "shifts st \<noteq> []" "picks st ''undefined'' = None"
  shows "fst (randomAssignRemaining rnd n st) = Some TypeError"
proof -
  obtain s ss where s: "shifts st = s # ss" using assms(2) by (cases "shifts st") auto
  have w: "whoIsAssigned st i = []" for i using assms(1) by (simp add: whoIsAssigned_def)
  have a: "assign_one rnd s n st = (Some TypeError, n, st)"
    using assms(1,3) by (simp add: assign_one_def js_sort_def)
  have "randomAssignRemaining rnd n st = assign_loop rnd (s # ss) n st"
    unfolding randomAssign_is_loop s by (simp add: w)
  then show ?thesis using a by simp
qed

section \<open>The page of the clean version keeps the picks listed\<close>





















lemma ex_page_run_before:
  "(case run_page (\<lambda>_. 0)
           [AddGuardia ''2025-09-01'' ''Puerta'', AddGuardia ''2025-09-03'' ''Puerta'',
            ChangeBox ''Resident 1'' ''2025-09-01__PUERTA'' True,
            ChangeBox ''Resident 2'' ''2025-09-01__PUERTA'' True,
            ChangeBox ''Resident 2'' ''2025-09-03__PUERTA'' True] (0, initial_state) of
      None \<Rightarrow> None
    | Some (k, s) \<Rightarrow> Some (map shift_id (shifts s), picks s ''Resident 1'', picks s ''Resident 2''))
   = Some ([''2025-09-01__PUERTA'', ''2025-09-03__PUERTA''], Some [''2025-09-01__PUERTA''],
           Some [''2025-09-01__PUERTA'', ''2025-09-03__PUERTA''])"
  by code_simp


end
